theory Spec2Isabelle
  imports Complex_Main
begin

section \<open>Data model\<close>

text \<open>
  The tree of RBTree.c lives in C memory: nodes are heap cells linked by three pointers.
  A pointer is an address or NULL (\<open>None\<close>); the store maps an address to the cell
  allocated there (\<open>None\<close>: never allocated, or freed).
\<close>

datatype Color = RED | BLACK

type_synonym addr = nat

record 'a Node =
  parent :: "addr option"
  left :: "addr option"
  right :: "addr option"
  color :: Color
  data :: 'a

text \<open>
  Dereferencing NULL or a freed cell is undefined behaviour in C; the model stops there with
  \<open>NullDeref\<close>, and a read past the end of an array stops with \<open>OutOfBounds\<close>. The
  recursive functions of the source take a recursion budget, and \<open>OutOfFuel\<close> is the
  answer of a call that needed more.
\<close>

datatype error = NullDeref | OutOfBounds | OutOfFuel

text \<open>
  Modelled from the spec: the struct declarations of RBTree.h are not among the sources. The
  tree object holds the root pointer and the element count (taken as an unbounded integer);
  its two function pointers never change after construction and are passed to the functions
  as the argument \<open>cmp\<close> and as the log \<open>freed\<close>, which records every call of the
  element destructor freeFunc in order. The record also carries the memory the tree's nodes
  live in: \<open>store\<close>, and \<open>nxt\<close>, the next address malloc hands out (malloc never fails
  in the model and never reuses an address).
\<close>

record 'a RBTree =
  root :: "addr option"
  tsize :: int
  store :: "addr \<Rightarrow> 'a Node option"
  nxt :: addr
  freed :: "'a list"

definition bnd :: "error + 'b \<Rightarrow> ('b \<Rightarrow> error + 'c) \<Rightarrow> error + 'c" where
  "bnd m f = (case m of Inl e \<Rightarrow> Inl e | Inr x \<Rightarrow> f x)"

text \<open>\<open>nd s p\<close> reads the cell behind pointer \<open>p\<close>; \<open>put p f s\<close> writes through it.\<close>

definition nd :: "'a RBTree \<Rightarrow> addr option \<Rightarrow> error + 'a Node" where
  "nd s p = (case p of None \<Rightarrow> Inl NullDeref
             | Some a \<Rightarrow> (case store s a of None \<Rightarrow> Inl NullDeref | Some n \<Rightarrow> Inr n))"

definition put :: "addr option \<Rightarrow> ('a Node \<Rightarrow> 'a Node) \<Rightarrow> 'a RBTree \<Rightarrow> error + 'a RBTree" where
  "put p f s = (case p of None \<Rightarrow> Inl NullDeref
                | Some a \<Rightarrow> (case store s a of None \<Rightarrow> Inl NullDeref
                             | Some n \<Rightarrow> Inr (s\<lparr>store := (store s)(a \<mapsto> f n)\<rparr>)))"

definition set_parent :: "addr option \<Rightarrow> addr option \<Rightarrow> 'a RBTree \<Rightarrow> error + 'a RBTree" where
  "set_parent p v s = put p (\<lambda>n. n\<lparr>parent := v\<rparr>) s"

definition set_left :: "addr option \<Rightarrow> addr option \<Rightarrow> 'a RBTree \<Rightarrow> error + 'a RBTree" where
  "set_left p v s = put p (\<lambda>n. n\<lparr>left := v\<rparr>) s"

definition set_right :: "addr option \<Rightarrow> addr option \<Rightarrow> 'a RBTree \<Rightarrow> error + 'a RBTree" where
  "set_right p v s = put p (\<lambda>n. n\<lparr>right := v\<rparr>) s"

definition set_color :: "addr option \<Rightarrow> Color \<Rightarrow> 'a RBTree \<Rightarrow> error + 'a RBTree" where
  "set_color p v s = put p (\<lambda>n. n\<lparr>color := v\<rparr>) s"

definition set_data :: "addr option \<Rightarrow> 'a \<Rightarrow> 'a RBTree \<Rightarrow> error + 'a RBTree" where
  "set_data p v s = put p (\<lambda>n. n\<lparr>data := v\<rparr>) s"

text \<open>free(node): the cell is gone; freeing NULL does nothing.\<close>

definition free_node :: "addr option \<Rightarrow> 'a RBTree \<Rightarrow> 'a RBTree" where
  "free_node p s = (case p of None \<Rightarrow> s | Some a \<Rightarrow> s\<lparr>store := (store s)(a := None)\<rparr>)"

text \<open>tree->freeFunc(node->data)\<close>

definition freeFunc :: "addr option \<Rightarrow> 'a RBTree \<Rightarrow> error + 'a RBTree" where
  "freeFunc p s = bnd (nd s p) (\<lambda>n. Inr (s\<lparr>freed := freed s @ [data n]\<rparr>))"

section \<open>Construction\<close>

definition newRBTree :: "'a RBTree" where
  "newRBTree = \<lparr>root = None, tsize = 0, store = (\<lambda>_. None), nxt = 0, freed = []\<rparr>"

section \<open>Membership\<close>

fun contains :: "nat \<Rightarrow> ('a \<Rightarrow> 'a \<Rightarrow> int) \<Rightarrow> 'a RBTree \<Rightarrow> addr option \<Rightarrow> 'a \<Rightarrow> error + int" where
  "contains 0 cmp s node d = Inl OutOfFuel"
| "contains (Suc k) cmp s node d =
     (if node \<noteq> None then
        bnd (nd s node) (\<lambda>n.
          if cmp (data n) d = 0 then Inr 1
          else if cmp (data n) d < 0 then contains k cmp s (right n) d
          else contains k cmp s (left n) d)
      else Inr 0)"

definition RBTreeContains ::
  "nat \<Rightarrow> ('a \<Rightarrow> 'a \<Rightarrow> int) \<Rightarrow> 'a RBTree option \<Rightarrow> 'a \<Rightarrow> error + int" where
  "RBTreeContains k cmp tree d =
     (case tree of None \<Rightarrow> Inr 0 | Some s \<Rightarrow> contains k cmp s (root s) d)"

section \<open>Insertion\<close>

fun treeRBinsert ::
  "nat \<Rightarrow> ('a \<Rightarrow> 'a \<Rightarrow> int) \<Rightarrow> 'a RBTree \<Rightarrow> addr option \<Rightarrow> addr option \<Rightarrow> error + (int \<times> 'a RBTree)" where
  "treeRBinsert 0 cmp s rt new = Inl OutOfFuel"
| "treeRBinsert (Suc k) cmp s rt new =
     bnd (nd s rt) (\<lambda>R. bnd (nd s new) (\<lambda>N.
       let comp = cmp (data R) (data N) in
       if comp = 0 then Inr (0, s)
       else if comp < 0 then
         (if right R \<noteq> None then
            bnd (treeRBinsert k cmp s (right R) new) (\<lambda>(_, s). Inr (1, s))
          else bnd (set_right rt new s) (\<lambda>s. bnd (set_parent new rt s) (\<lambda>s. Inr (1, s))))
       else
         (if left R \<noteq> None then
            bnd (treeRBinsert k cmp s (left R) new) (\<lambda>(_, s). Inr (1, s))
          else bnd (set_left rt new s) (\<lambda>s. bnd (set_parent new rt s) (\<lambda>s. Inr (1, s))))))"

definition getParent :: "'a RBTree \<Rightarrow> addr option \<Rightarrow> error + addr option" where
  "getParent s node =
     (if node = None then Inr None
      else bnd (nd s node) (\<lambda>n. if parent n = None then Inr None else Inr (parent n)))"

definition getUncle ::
  "('a \<Rightarrow> 'a \<Rightarrow> int) \<Rightarrow> 'a RBTree \<Rightarrow> addr option \<Rightarrow> error + addr option" where
  "getUncle cmp s node =
     bnd (getParent s node) (\<lambda>par.
     bnd (getParent s par) (\<lambda>grandParent.
       if grandParent \<noteq> None then
         bnd (nd s grandParent) (\<lambda>G.
           if left G \<noteq> None then
             bnd (nd s (left G)) (\<lambda>GL. bnd (nd s par) (\<lambda>P.
               if cmp (data GL) (data P) \<noteq> 0 then Inr (left G)
               else if right G \<noteq> None then Inr (right G)
               else Inr None))
           else Inr None)
       else Inr None))"

text \<open>
  The second half of both rotations of the parent: the link from the great-grandparent (or
  the root pointer) is moved to \<open>par\<close>. The source finds the side by comparing the data of
  the great-grandparent's left child, which it does not test for NULL.
\<close>

definition relink ::
  "('a \<Rightarrow> 'a \<Rightarrow> int) \<Rightarrow> addr option \<Rightarrow> addr option \<Rightarrow> 'a RBTree \<Rightarrow> error + 'a RBTree" where
  "relink cmp grandParent par s =
     bnd (nd s grandParent) (\<lambda>G.
       if parent G = None then
         bnd (set_parent par None (s\<lparr>root := par\<rparr>)) (\<lambda>s.
         bnd (set_color par BLACK s) (\<lambda>s.
         set_parent grandParent par s))
       else
         bnd (nd s (parent G)) (\<lambda>GG.
         bnd (nd s (left GG)) (\<lambda>GGL.
         bnd (if cmp (data GGL) (data G) = 0 then set_left (parent G) par s
              else set_right (parent G) par s) (\<lambda>s.
         bnd (nd s grandParent) (\<lambda>G.
         bnd (set_parent par (parent G) s) (\<lambda>s.
         set_parent grandParent par s))))))"

definition rotateLeft2 ::
  "('a \<Rightarrow> 'a \<Rightarrow> int) \<Rightarrow> 'a RBTree \<Rightarrow> addr option \<Rightarrow> error + 'a RBTree" where
  "rotateLeft2 cmp s node =
     bnd (getParent s node) (\<lambda>par.
     bnd (getParent s par) (\<lambda>grandParent.
     bnd (nd s par) (\<lambda>P.
     bnd (set_right grandParent (left P) s) (\<lambda>s.
     bnd (nd s par) (\<lambda>P.
     bnd (if left P \<noteq> None then set_parent (left P) grandParent s else Inr s) (\<lambda>s.
     bnd (set_left par grandParent s) (\<lambda>s.
     relink cmp grandParent par s)))))))"

definition rotateRight2 ::
  "('a \<Rightarrow> 'a \<Rightarrow> int) \<Rightarrow> 'a RBTree \<Rightarrow> addr option \<Rightarrow> error + 'a RBTree" where
  "rotateRight2 cmp s node =
     bnd (getParent s node) (\<lambda>par.
     bnd (getParent s par) (\<lambda>grandParent.
     bnd (nd s par) (\<lambda>P.
     bnd (set_left grandParent (right P) s) (\<lambda>s.
     bnd (nd s par) (\<lambda>P.
     bnd (if right P \<noteq> None then set_parent (right P) grandParent s else Inr s) (\<lambda>s.
     bnd (set_right par grandParent s) (\<lambda>s.
     bnd (relink cmp grandParent par s) (\<lambda>s.
     set_color grandParent RED s))))))))"

definition rotateLeft ::
  "('a \<Rightarrow> 'a \<Rightarrow> int) \<Rightarrow> 'a RBTree \<Rightarrow> addr option \<Rightarrow> error + 'a RBTree" where
  "rotateLeft cmp s node =
     bnd (getParent s node) (\<lambda>par.
     bnd (getParent s par) (\<lambda>grandParent.
     bnd (nd s grandParent) (\<lambda>G.
     bnd (if left G \<noteq> None
          then bnd (nd s par) (\<lambda>P. bnd (nd s (left G)) (\<lambda>GL. Inr (cmp (data P) (data GL) = 0)))
          else Inr False) (\<lambda>inner.
     bnd (if inner then
            bnd (set_left grandParent node s) (\<lambda>s.
            bnd (nd s node) (\<lambda>N.
            bnd (if left N \<noteq> None then set_parent (left N) par s else Inr s) (\<lambda>s.
            bnd (nd s node) (\<lambda>N.
            bnd (set_right par (left N) s) (\<lambda>s.
            bnd (set_left node par s) (\<lambda>s.
            bnd (set_parent node grandParent s) (\<lambda>s.
            bnd (set_parent par node s) (\<lambda>s.
            bnd (rotateRight2 cmp s par) (\<lambda>s.
            set_color node BLACK s)))))))))
          else
            bnd (rotateLeft2 cmp s node) (\<lambda>s.
            set_color par BLACK s)) (\<lambda>s.
     set_color grandParent RED s)))))"

definition rotateRight ::
  "('a \<Rightarrow> 'a \<Rightarrow> int) \<Rightarrow> 'a RBTree \<Rightarrow> addr option \<Rightarrow> error + 'a RBTree" where
  "rotateRight cmp s node =
     bnd (getParent s node) (\<lambda>par.
     bnd (getParent s par) (\<lambda>grandParent.
     bnd (nd s grandParent) (\<lambda>G.
     bnd (if right G \<noteq> None
          then bnd (nd s par) (\<lambda>P. bnd (nd s (right G)) (\<lambda>GR. Inr (cmp (data P) (data GR) = 0)))
          else Inr False) (\<lambda>inner.
     bnd (if inner then
            bnd (set_right grandParent node s) (\<lambda>s.
            bnd (nd s node) (\<lambda>N.
            bnd (if right N \<noteq> None then set_parent (right N) par s else Inr s) (\<lambda>s.
            bnd (nd s node) (\<lambda>N.
            bnd (set_left par (right N) s) (\<lambda>s.
            bnd (set_right node par s) (\<lambda>s.
            bnd (set_parent node grandParent s) (\<lambda>s.
            bnd (set_parent par node s) (\<lambda>s.
            bnd (rotateLeft2 cmp s par) (\<lambda>s.
            set_color node BLACK s)))))))))
          else
            bnd (nd s par) (\<lambda>P. bnd (nd s grandParent) (\<lambda>G. bnd (nd s (left G)) (\<lambda>GL.
              if cmp (data P) (data GL) = 0 then
                bnd (rotateRight2 cmp s node) (\<lambda>s.
                set_color par BLACK s)
              else Inr s)))) (\<lambda>s.
     set_color grandParent RED s)))))"

fun fixTreeInsert ::
  "nat \<Rightarrow> ('a \<Rightarrow> 'a \<Rightarrow> int) \<Rightarrow> 'a RBTree \<Rightarrow> addr option \<Rightarrow> error + 'a RBTree" where
  "fixTreeInsert 0 cmp s newlyAdded = Inl OutOfFuel"
| "fixTreeInsert (Suc k) cmp s newlyAdded =
     bnd (getUncle cmp s newlyAdded) (\<lambda>uncle.
     bnd (getParent s newlyAdded) (\<lambda>par.
     bnd (getParent s par) (\<lambda>grandParent.
     bnd (nd s (root s)) (\<lambda>Rt.
     bnd (nd s newlyAdded) (\<lambda>N.
       if cmp (data Rt) (data N) = 0 then set_color newlyAdded BLACK s
       else
         bnd (nd s par) (\<lambda>P.
           if color P = RED then
             bnd (if uncle \<noteq> None then bnd (nd s uncle) (\<lambda>U. Inr (color U = RED))
                  else Inr False) (\<lambda>redUncle.
               if redUncle then
                 bnd (set_color par BLACK s) (\<lambda>s.
                 bnd (set_color uncle BLACK s) (\<lambda>s.
                 bnd (set_color grandParent RED s) (\<lambda>s.
                 fixTreeInsert k cmp s grandParent)))
               else
                 bnd (if left P \<noteq> None
                      then bnd (nd s (left P)) (\<lambda>PL. Inr (cmp (data N) (data PL) = 0))
                      else Inr False) (\<lambda>isLeft.
                   if isLeft then rotateRight cmp s newlyAdded
                   else rotateLeft cmp s newlyAdded))
           else Inr s))))))"

text \<open>
  malloc(sizeof(Node)) followed by the five field initialisations of insertToRBTree.
\<close>

definition newNode :: "'a \<Rightarrow> 'a RBTree \<Rightarrow> addr option \<times> 'a RBTree" where
  "newNode d s =
     (Some (nxt s),
      s\<lparr>store := (store s)(nxt s \<mapsto>
            \<lparr>parent = None, left = None, right = None, color = RED, data = d\<rparr>),
        nxt := Suc (nxt s)\<rparr>)"

text \<open>
  The tree pointer and the element pointer may be NULL (\<open>None\<close>). The result is the
  returned int and the tree object behind the pointer afterwards.
\<close>

definition insertToRBTree ::
  "nat \<Rightarrow> ('a \<Rightarrow> 'a \<Rightarrow> int) \<Rightarrow> 'a RBTree option \<Rightarrow> 'a option \<Rightarrow> error + (int \<times> 'a RBTree option)" where
  "insertToRBTree k cmp tree dat =
     (case tree of None \<Rightarrow> Inr (0, None)
      | Some s \<Rightarrow>
     (case dat of None \<Rightarrow> Inr (0, tree)
      | Some d \<Rightarrow>
        bnd (RBTreeContains k cmp tree d) (\<lambda>c.
          if c = 1 then Inr (0, tree)
          else
            (case newNode d s of (new, s) \<Rightarrow>
               if root s = None then
                 bnd (set_color new BLACK s) (\<lambda>s.
                 Inr (1, Some (s\<lparr>root := new, tsize := tsize s + 1\<rparr>)))
               else
                 bnd (treeRBinsert k cmp s (root s) new) (\<lambda>(r, s).
                   if r = 0 then Inr (0, Some s)
                   else
                     bnd (fixTreeInsert k cmp s new) (\<lambda>s.
                     Inr (1, Some (s\<lparr>tsize := tsize s + 1\<rparr>))))))))"

section \<open>Deletion\<close>

fun minValue :: "nat \<Rightarrow> 'a RBTree \<Rightarrow> addr option \<Rightarrow> error + addr option" where
  "minValue 0 s current = Inl OutOfFuel"
| "minValue (Suc k) s current =
     bnd (nd s current) (\<lambda>C.
       if left C \<noteq> None then minValue k s (left C) else Inr current)"

definition inOrderSuccessor :: "nat \<Rightarrow> 'a RBTree \<Rightarrow> addr option \<Rightarrow> error + addr option" where
  "inOrderSuccessor k s n =
     (if n = None then Inr None
      else bnd (nd s n) (\<lambda>N. if right N \<noteq> None then minValue k s (right N) else Inr None))"

definition treeReplaceNode :: "addr option \<Rightarrow> addr option \<Rightarrow> 'a RBTree \<Rightarrow> error + 'a RBTree" where
  "treeReplaceNode n child s =
     bnd (nd s n) (\<lambda>N.
     bnd (nd s child) (\<lambda>C.
     bnd (set_data n (data C) s) (\<lambda>s.
     set_data child (data N) s)))"

fun nodeFinder ::
  "nat \<Rightarrow> ('a \<Rightarrow> 'a \<Rightarrow> int) \<Rightarrow> 'a RBTree \<Rightarrow> addr option \<Rightarrow> 'a \<Rightarrow> error + addr option" where
  "nodeFinder 0 cmp s node d = Inl OutOfFuel"
| "nodeFinder (Suc k) cmp s node d =
     bnd (nd s node) (\<lambda>n.
       if cmp (data n) d = 0 \<or> node = None then Inr node
       else if cmp (data n) d < 0 then nodeFinder k cmp s (right n) d
       else nodeFinder k cmp s (left n) d)"

definition rotateRightDelete ::
  "('a \<Rightarrow> 'a \<Rightarrow> int) \<Rightarrow> 'a RBTree \<Rightarrow> addr option \<Rightarrow> error + 'a RBTree" where
  "rotateRightDelete cmp s par =
     bnd (nd s par) (\<lambda>P.
     let sp = left P in
     bnd (nd s sp) (\<lambda>S.
     bnd (set_left par (right S) s) (\<lambda>s.
     bnd (nd s sp) (\<lambda>S.
     bnd (if right S \<noteq> None then set_parent (right S) par s else Inr s) (\<lambda>s.
     bnd (set_right sp par s) (\<lambda>s.
     bnd (nd s par) (\<lambda>P.
     bnd (set_parent sp (parent P) s) (\<lambda>s.
     bnd (nd s par) (\<lambda>P.
     bnd (if parent P \<noteq> None then
            bnd (nd s (parent P)) (\<lambda>PP.
            bnd (if left PP \<noteq> None
                 then bnd (nd s (left PP)) (\<lambda>PPL. Inr (cmp (data P) (data PPL) = 0))
                 else Inr False) (\<lambda>isLeft.
              if isLeft then set_left (parent P) sp s else set_right (parent P) sp s))
          else Inr (s\<lparr>root := sp\<rparr>)) (\<lambda>s.
     set_parent par sp s))))))))))"

definition rotateLeftDelete ::
  "('a \<Rightarrow> 'a \<Rightarrow> int) \<Rightarrow> 'a RBTree \<Rightarrow> addr option \<Rightarrow> error + 'a RBTree" where
  "rotateLeftDelete cmp s par =
     bnd (nd s par) (\<lambda>P.
     let sp = right P in
     bnd (nd s sp) (\<lambda>S.
     bnd (set_right par (left S) s) (\<lambda>s.
     bnd (nd s sp) (\<lambda>S.
     bnd (if left S \<noteq> None then set_parent (left S) par s else Inr s) (\<lambda>s.
     bnd (set_left sp par s) (\<lambda>s.
     bnd (nd s par) (\<lambda>P.
     bnd (set_parent sp (parent P) s) (\<lambda>s.
     bnd (nd s par) (\<lambda>P.
     bnd (if parent P \<noteq> None then
            bnd (nd s (parent P)) (\<lambda>PP.
            bnd (nd s (left PP)) (\<lambda>PPL.
              if cmp (data P) (data PPL) = 0 then set_left (parent P) sp s
              else set_right (parent P) sp s))
          else Inr (s\<lparr>root := sp\<rparr>)) (\<lambda>s.
     set_parent par sp s))))))))))"

text \<open>The tests \<open>p == NULL || p->color == BLACK\<close> and \<open>p != NULL && p->color == RED\<close>.\<close>

definition nullOrBlack :: "'a RBTree \<Rightarrow> addr option \<Rightarrow> error + bool" where
  "nullOrBlack s p = (if p = None then Inr True else bnd (nd s p) (\<lambda>n. Inr (color n = BLACK)))"

definition isColor :: "'a RBTree \<Rightarrow> addr option \<Rightarrow> Color \<Rightarrow> error + bool" where
  "isColor s p c = (if p \<noteq> None then bnd (nd s p) (\<lambda>n. Inr (color n = c)) else Inr False)"

text \<open>The short-circuit conjunction of two tests that read memory.\<close>

definition andE :: "error + bool \<Rightarrow> error + bool \<Rightarrow> error + bool" where
  "andE a b = bnd a (\<lambda>x. if x then b else Inr False)"

definition deleteE ::
  "('a \<Rightarrow> 'a \<Rightarrow> int) \<Rightarrow> 'a RBTree \<Rightarrow> addr option \<Rightarrow> char \<Rightarrow> error + 'a RBTree" where
  "deleteE cmp s par side =
     (if side = CHR ''l'' then
        bnd (nd s par) (\<lambda>P.
        let S = right P in
        bnd (nd s S) (\<lambda>Sn.
        bnd (set_color par (color Sn) s) (\<lambda>s.
        bnd (nd s par) (\<lambda>P'.
        bnd (set_color (right P') (color P) s) (\<lambda>s.
        bnd (rotateLeftDelete cmp s par) (\<lambda>s.
        bnd (nd s S) (\<lambda>Sn.
        set_color (right Sn) BLACK s)))))))
      else if side = CHR ''r'' then
        bnd (nd s par) (\<lambda>P.
        let S = left P in
        bnd (nd s S) (\<lambda>Sn.
        bnd (set_color par (color Sn) s) (\<lambda>s.
        bnd (nd s par) (\<lambda>P'.
        bnd (set_color (left P') (color P) s) (\<lambda>s.
        bnd (rotateRightDelete cmp s par) (\<lambda>s.
        bnd (nd s S) (\<lambda>Sn.
        set_color (left Sn) BLACK s)))))))
      else Inr s)"

definition deleteD ::
  "('a \<Rightarrow> 'a \<Rightarrow> int) \<Rightarrow> 'a RBTree \<Rightarrow> addr option \<Rightarrow> char \<Rightarrow> error + 'a RBTree" where
  "deleteD cmp s par side =
     (if side = CHR ''l'' then
        bnd (nd s par) (\<lambda>P.
        bnd (nd s (right P)) (\<lambda>S.
        bnd (set_color (left S) BLACK s) (\<lambda>s.
        bnd (nd s par) (\<lambda>P.
        bnd (set_color (right P) RED s) (\<lambda>s.
        bnd (nd s par) (\<lambda>P.
        bnd (rotateRightDelete cmp s (right P)) (\<lambda>s.
        deleteE cmp s par side)))))))
      else
        bnd (nd s par) (\<lambda>P.
        bnd (nd s (left P)) (\<lambda>S.
        bnd (set_color (right S) BLACK s) (\<lambda>s.
        bnd (nd s par) (\<lambda>P.
        bnd (set_color (left P) RED s) (\<lambda>s.
        bnd (nd s par) (\<lambda>P.
        bnd (rotateLeftDelete cmp s (left P)) (\<lambda>s.
        deleteE cmp s par side))))))))"

fun delete3 ::
    "nat \<Rightarrow> ('a \<Rightarrow> 'a \<Rightarrow> int) \<Rightarrow> 'a RBTree \<Rightarrow> addr option \<Rightarrow> char \<Rightarrow> error + 'a RBTree"
  and deleteB ::
    "nat \<Rightarrow> ('a \<Rightarrow> 'a \<Rightarrow> int) \<Rightarrow> 'a RBTree \<Rightarrow> addr option \<Rightarrow> char \<Rightarrow> error + 'a RBTree"
  and deleteC ::
    "nat \<Rightarrow> ('a \<Rightarrow> 'a \<Rightarrow> int) \<Rightarrow> 'a RBTree \<Rightarrow> addr option \<Rightarrow> char \<Rightarrow> error + 'a RBTree"
where
  "delete3 0 cmp s pnode side = Inl OutOfFuel"
| "delete3 (Suc k) cmp s pnode side =
     (if side = CHR ''l'' then
        bnd (nd s pnode) (\<lambda>P.
        bnd (if left P \<noteq> None
             then bnd (nd s (root s)) (\<lambda>Rt. bnd (nd s (left P)) (\<lambda>PL.
                    Inr (cmp (data Rt) (data PL) \<noteq> 0)))
             else Inr False) (\<lambda>skip.
          if \<not> skip then
            bnd (isColor s (right P) BLACK) (\<lambda>blackS.
              if blackS then
                bnd (nd s (right P)) (\<lambda>S.
                bnd (andE (nullOrBlack s (right S)) (nullOrBlack s (left S))) (\<lambda>bothBlack.
                  if bothBlack then deleteB k cmp s pnode side
                  else
                    bnd (andE (isColor s (left S) RED) (nullOrBlack s (right S))) (\<lambda>nearRed.
                      if nearRed then deleteD cmp s pnode side
                      else
                        bnd (isColor s (right S) RED) (\<lambda>farRed.
                          if farRed then deleteE cmp s pnode side
                          else Inr s))))
              else deleteC k cmp s pnode side)
          else Inr s))
      else if side = CHR ''r'' then
        bnd (nd s pnode) (\<lambda>P.
        bnd (if right P \<noteq> None
             then bnd (nd s (root s)) (\<lambda>Rt. bnd (nd s (right P)) (\<lambda>PR.
                    Inr (cmp (data Rt) (data PR) = 0)))
             else Inr False) (\<lambda>skip.
          if \<not> skip then
            bnd (isColor s (left P) BLACK) (\<lambda>blackS.
              if blackS then
                bnd (nd s (left P)) (\<lambda>S.
                bnd (andE (nullOrBlack s (right S)) (nullOrBlack s (left S))) (\<lambda>bothBlack.
                  if bothBlack then deleteB k cmp s pnode side
                  else
                    bnd (andE (isColor s (right S) RED) (nullOrBlack s (left S))) (\<lambda>nearRed.
                      if nearRed then deleteD cmp s pnode side
                      else
                        bnd (isColor s (left S) RED) (\<lambda>farRed.
                          if farRed then deleteE cmp s pnode side
                          else Inr s))))
              else deleteC k cmp s pnode side)
          else Inr s))
      else Inr s)"
| "deleteB k cmp s par side =
     bnd (nd s par) (\<lambda>P.
       if color P = RED then
         bnd (set_color par BLACK s) (\<lambda>s.
           if side = CHR ''l'' then set_color (right P) RED s
           else if side = CHR ''r'' then set_color (left P) RED s
           else Inr s)
       else
         if side = CHR ''l'' then set_color (right P) RED s
         else
           bnd (set_color (left P) RED s) (\<lambda>s.
           bnd (nd s par) (\<lambda>P.
             if parent P \<noteq> None then
               bnd (nd s (parent P)) (\<lambda>PP.
               bnd (nd s (left PP)) (\<lambda>PPL.
                 if cmp (data P) (data PPL) = 0 then delete3 k cmp s (parent P) (CHR ''l'')
                 else delete3 k cmp s (parent P) (CHR ''r'')))
             else Inr s)))"
| "deleteC k cmp s par side =
     bnd (if side = CHR ''l'' then
            bnd (nd s par) (\<lambda>P.
            bnd (nd s (right P)) (\<lambda>S.
            bnd (set_color par (color S) s) (\<lambda>s.
            bnd (nd s par) (\<lambda>P'.
            bnd (set_color (right P') (color P) s) (\<lambda>s.
            rotateLeftDelete cmp s par)))))
          else if side = CHR ''r'' then
            bnd (nd s par) (\<lambda>P.
            bnd (nd s (left P)) (\<lambda>S.
            bnd (set_color par (color S) s) (\<lambda>s.
            bnd (nd s par) (\<lambda>P'.
            bnd (set_color (left P') (color P) s) (\<lambda>s.
            rotateRightDelete cmp s par)))))
          else Inr s) (\<lambda>s.
     delete3 k cmp s par side)"

text \<open>removeM, delete1 and delete2 unlink the node, call the destructor and free the cell.\<close>

definition removeM ::
  "('a \<Rightarrow> 'a \<Rightarrow> int) \<Rightarrow> 'a RBTree \<Rightarrow> addr option \<Rightarrow> error + (char \<times> 'a RBTree)" where
  "removeM cmp s node =
     bnd (nd s node) (\<lambda>N.
       if parent N \<noteq> None then
         bnd (nd s (parent N)) (\<lambda>P.
         bnd (if left P \<noteq> None
              then bnd (nd s (left P)) (\<lambda>PL. Inr (cmp (data N) (data PL) = 0))
              else Inr False) (\<lambda>isLeft.
           if isLeft then
             bnd (set_left (parent N) (left N) s) (\<lambda>s.
             bnd (if left N \<noteq> None then set_parent (left N) (parent N) s else Inr s) (\<lambda>s.
             bnd (freeFunc node s) (\<lambda>s.
             Inr (CHR ''l'', free_node node s))))
           else
             bnd (set_right (parent N) (right N) s) (\<lambda>s.
             bnd (if right N \<noteq> None then set_parent (right N) (parent N) s else Inr s) (\<lambda>s.
             bnd (freeFunc node s) (\<lambda>s.
             Inr (CHR ''r'', free_node node s))))))
       else
         bnd (if right N \<noteq> None then set_parent (right N) None (s\<lparr>root := right N\<rparr>)
              else Inr (s\<lparr>root := right N\<rparr>)) (\<lambda>s.
         bnd (freeFunc node s) (\<lambda>s.
         Inr (CHR ''t'', free_node node s))))"

definition delete2 ::
  "('a \<Rightarrow> 'a \<Rightarrow> int) \<Rightarrow> 'a RBTree \<Rightarrow> addr option \<Rightarrow> char \<Rightarrow> error + 'a RBTree" where
  "delete2 cmp s node side =
     bnd (nd s node) (\<lambda>N.
     bnd (if side = CHR ''r'' then
            bnd (set_parent (right N) (parent N) s) (\<lambda>s.
            bnd (nd s (parent N)) (\<lambda>P.
            bnd (nd s (right P)) (\<lambda>PR.
            bnd (if cmp (data PR) (data N) = 0 then set_right (parent N) (right N) s
                 else set_left (parent N) (right N) s) (\<lambda>s.
            set_color (right N) BLACK s))))
          else
            bnd (if parent N = None then
                   set_parent (left N) (parent N) (s\<lparr>root := left N\<rparr>)
                 else
                   bnd (set_parent (left N) (parent N) s) (\<lambda>s.
                   bnd (nd s (parent N)) (\<lambda>P.
                   bnd (nd s (right P)) (\<lambda>PR.
                     if cmp (data PR) (data N) = 0 then set_right (parent N) (left N) s
                     else set_left (parent N) (left N) s)))) (\<lambda>s.
            set_color (left N) BLACK s)) (\<lambda>s.
     bnd (freeFunc node s) (\<lambda>s.
     Inr (free_node node s))))"

definition delete1 ::
  "('a \<Rightarrow> 'a \<Rightarrow> int) \<Rightarrow> 'a RBTree \<Rightarrow> addr option \<Rightarrow> error + 'a RBTree" where
  "delete1 cmp s node =
     bnd (nd s node) (\<lambda>N.
     bnd (nd s (parent N)) (\<lambda>P.
     bnd (if right P \<noteq> None
          then bnd (nd s (right P)) (\<lambda>PR. Inr (cmp (data PR) (data N) = 0))
          else Inr False) (\<lambda>isRight.
     bnd (if isRight then set_right (parent N) None s else set_left (parent N) None s) (\<lambda>s.
     bnd (freeFunc node s) (\<lambda>s.
     Inr (free_node node s))))))"

definition fixTreeDelete ::
  "nat \<Rightarrow> ('a \<Rightarrow> 'a \<Rightarrow> int) \<Rightarrow> 'a RBTree \<Rightarrow> addr option \<Rightarrow> error + 'a RBTree" where
  "fixTreeDelete k cmp s node =
     bnd (nd s node) (\<lambda>N.
       if color N = RED then delete1 cmp s node
       else
         bnd (isColor s (right N) RED) (\<lambda>redRight.
           if redRight then delete2 cmp s node (CHR ''r'')
           else
             bnd (isColor s (left N) RED) (\<lambda>redLeft.
               if redLeft then delete2 cmp s node (CHR ''l'')
               else
                 bnd (removeM cmp s node) (\<lambda>(side, s).
                   if side \<noteq> CHR ''t'' then delete3 k cmp s (parent N) side
                   else Inr s))))"

definition deleteFromRBTree ::
  "nat \<Rightarrow> ('a \<Rightarrow> 'a \<Rightarrow> int) \<Rightarrow> 'a RBTree option \<Rightarrow> 'a option \<Rightarrow> error + (int \<times> 'a RBTree option)" where
  "deleteFromRBTree k cmp tree dat =
     (case tree of None \<Rightarrow> Inr (0, None)
      | Some s \<Rightarrow>
     (case dat of None \<Rightarrow> Inr (0, tree)
      | Some d \<Rightarrow>
        bnd (RBTreeContains k cmp tree d) (\<lambda>c.
          if c = 0 then Inr (0, tree)
          else
            bnd (nodeFinder k cmp s (root s) d) (\<lambda>node.
              if node = None then Inr (0, tree)
              else
                bnd (inOrderSuccessor k s node) (\<lambda>suc.
                bnd (if suc \<noteq> None then
                       bnd (treeReplaceNode node suc s) (\<lambda>s. fixTreeDelete k cmp s suc)
                     else fixTreeDelete k cmp s node) (\<lambda>s.
                Inr (1, Some (s\<lparr>tsize := tsize s - 1\<rparr>))))))))"

section \<open>Traversal and teardown\<close>

text \<open>
  The visitor \<open>func\<close> gets the element and the caller's argument, which it may change; the
  model threads the argument and, beside it, the list of elements the visitor was called on.
\<close>

fun forEachHelper ::
  "nat \<Rightarrow> 'a RBTree \<Rightarrow> addr option \<Rightarrow> ('a \<Rightarrow> 'c \<Rightarrow> int \<times> 'c) \<Rightarrow> 'c \<times> 'a list
     \<Rightarrow> error + (int \<times> 'c \<times> 'a list)" where
  "forEachHelper 0 s node func ac = Inl OutOfFuel"
| "forEachHelper (Suc k) s node func ac =
     (if node = None then Inr (1, ac)
      else
        bnd (nd s node) (\<lambda>N.
        bnd (forEachHelper k s (left N) func ac) (\<lambda>(l, args, calls).
          case func (data N) args of (try, args) \<Rightarrow>
            if try = 0 \<or> l = 0 then Inr (0, args, calls @ [data N])
            else
              bnd (forEachHelper k s (right N) func (args, calls @ [data N])) (\<lambda>(r, ac).
                if r = 0 then Inr (0, ac) else Inr (1, ac)))))"

definition forEachRBTree ::
  "nat \<Rightarrow> 'a RBTree option \<Rightarrow> ('a \<Rightarrow> 'c \<Rightarrow> int \<times> 'c) \<Rightarrow> 'c
     \<Rightarrow> error + (int \<times> 'c \<times> 'a list)" where
  "forEachRBTree k tree func args =
     (case tree of None \<Rightarrow> Inr (0, args, [])
      | Some s \<Rightarrow> forEachHelper k s (root s) func (args, []))"



section \<open>Running the interface\<close>

text \<open>
  The comparator contract of the interface: an integer that is zero for equal elements,
  negative when the first is smaller and positive when it is larger. \<open>ordCompare\<close> is the
  comparator of a linear order; \<open>cmp_ok\<close> says that a comparator follows the contract.
\<close>

definition ordCompare :: "'a::linorder \<Rightarrow> 'a \<Rightarrow> int" where
  "ordCompare a b = (if a < b then - 1 else if a = b then 0 else 1)"

definition cmp_ok :: "('a::linorder \<Rightarrow> 'a \<Rightarrow> int) \<Rightarrow> bool" where
  "cmp_ok cmp = (\<forall>a b. (cmp a b = 0) = (a = b) \<and> (cmp a b < 0) = (a < b))"

text \<open>
  Inserting, one after the other, the elements of a list; deleting them likewise. The result
  is the list of the values returned by the calls, and the tree object after the last call.
\<close>

fun insertAll :: "nat \<Rightarrow> ('a \<Rightarrow> 'a \<Rightarrow> int) \<Rightarrow> 'a list \<Rightarrow> 'a RBTree \<Rightarrow> error + (int list \<times> 'a RBTree)" where
  "insertAll k cmp [] s = Inr ([], s)"
| "insertAll k cmp (x # xs) s =
     bnd (insertToRBTree k cmp (Some s) (Some x)) (\<lambda>(r, t).
       case t of None \<Rightarrow> Inl NullDeref
       | Some s' \<Rightarrow> bnd (insertAll k cmp xs s') (\<lambda>(rs, s''). Inr (r # rs, s'')))"

fun deleteAll :: "nat \<Rightarrow> ('a \<Rightarrow> 'a \<Rightarrow> int) \<Rightarrow> 'a list \<Rightarrow> 'a RBTree \<Rightarrow> error + (int list \<times> 'a RBTree)" where
  "deleteAll k cmp [] s = Inr ([], s)"
| "deleteAll k cmp (x # xs) s =
     bnd (deleteFromRBTree k cmp (Some s) (Some x)) (\<lambda>(r, t).
       case t of None \<Rightarrow> Inl NullDeref
       | Some s' \<Rightarrow> bnd (deleteAll k cmp xs s') (\<lambda>(rs, s''). Inr (r # rs, s'')))"

section \<open>The vector comparator of Structs.c\<close>

text \<open>
  Modelled from the spec: the struct declaration of Structs.h is not among the sources. A
  Vector holds its length \<open>len\<close> (a C int) and the array \<open>vector\<close> of its components, which
  are C doubles. A double is NaN, an infinity, or a finite number, taken as the real number it
  denotes (the two zeros of the format denote the same number and compare equal). \<open>dless\<close>
  is the comparison \<open><\<close> of doubles, false whenever an operand is NaN; \<open>a > b\<close> is
  \<open>dless b a\<close>.
\<close>

datatype double = NaN | NegInf | Fin real | PosInf

fun dless :: "double \<Rightarrow> double \<Rightarrow> bool" where
  "dless (Fin x) (Fin y) = (x < y)"
| "dless NegInf (Fin y) = True"
| "dless NegInf PosInf = True"
| "dless (Fin x) PosInf = True"
| "dless a b = False"

record Vector =
  len :: int
  vector :: "double list"

definition min_int :: "int \<Rightarrow> int \<Rightarrow> int" where
  "min_int num1 num2 = (if num1 > num2 then num2 else num1)"

text \<open>
  The for loop of vectorCompare1By1 from index \<open>i\<close> on: \<open>Some r\<close> when the loop returns
  \<open>r\<close>, \<open>None\<close> when it runs to its end.
\<close>

function vectorCompareLoop :: "Vector \<Rightarrow> Vector \<Rightarrow> int \<Rightarrow> error + int option" where
  "vectorCompareLoop av bv i =
     (if i < min_int (len av) (len bv) then
        (if i < 0 \<or> int (length (vector av)) \<le> i \<or> int (length (vector bv)) \<le> i
         then Inl OutOfBounds
         else if dless (vector av ! nat i) (vector bv ! nat i) then Inr (Some (- 1))
         else if dless (vector bv ! nat i) (vector av ! nat i) then Inr (Some 1)
         else vectorCompareLoop av bv (i + 1))
      else Inr None)"
  by pat_completeness auto
termination
  by (relation "measure (\<lambda>(av, bv, i). nat (min_int (len av) (len bv) - i))") auto

definition vectorCompare1By1 :: "Vector \<Rightarrow> Vector \<Rightarrow> error + int" where
  "vectorCompare1By1 av bv =
     bnd (vectorCompareLoop av bv 0) (\<lambda>r.
       case r of Some v \<Rightarrow> Inr v
       | None \<Rightarrow>
           if len av = len bv then Inr 0
           else if len av < len bv then Inr (- 1)
           else Inr 1)"

text \<open>A vector is well formed when \<open>len\<close> is the number of components of its array.\<close>

definition vector_wf :: "Vector \<Rightarrow> bool" where
  "vector_wf v = (len v = int (length (vector v)))"

text \<open>The verdict of the first pair of components of which one is less than the other.\<close>

fun firstDiff :: "double list \<Rightarrow> double list \<Rightarrow> int option" where
  "firstDiff (x # xs) (y # ys) =
     (if dless x y then Some (- 1) else if dless y x then Some 1 else firstDiff xs ys)"
| "firstDiff xs ys = None"

section \<open>Trees in memory\<close>

text \<open>
  The shape that the cells of a store spell out: a binary tree whose nodes carry their
  address, colour and element. \<open>repr h p t\<close> says that the store \<open>h\<close> holds the tree \<open>t\<close>
  below a node at \<open>p\<close>: every cell has the fields of its node, the child pointers lead to
  the roots of the subtrees and every parent pointer leads back.
\<close>

datatype 'a tr = Lf | Nd "'a tr" addr Color 'a "'a tr"

fun ptr :: "'a tr \<Rightarrow> addr option" where
  "ptr Lf = None"
| "ptr (Nd l a c x r) = Some a"

fun addrs :: "'a tr \<Rightarrow> addr list" where
  "addrs Lf = []"
| "addrs (Nd l a c x r) = addrs l @ a # addrs r"

text \<open>The in-order sequence of the elements.\<close>

fun elems :: "'a tr \<Rightarrow> 'a list" where
  "elems Lf = []"
| "elems (Nd l a c x r) = elems l @ x # elems r"

fun col :: "'a tr \<Rightarrow> Color" where
  "col Lf = BLACK"
| "col (Nd l a c x r) = c"

fun repr :: "(addr \<Rightarrow> 'a Node option) \<Rightarrow> addr option \<Rightarrow> 'a tr \<Rightarrow> bool" where
  "repr h p Lf = True"
| "repr h p (Nd l a c x r) =
     (h a = Some \<lparr>parent = p, left = ptr l, right = ptr r, color = c, data = x\<rparr>
      \<and> repr h (Some a) l \<and> repr h (Some a) r)"

text \<open>The tree object \<open>s\<close> holds the tree \<open>t\<close>: a well-formed tree, no cell used twice.\<close>

definition tree_in :: "'a RBTree \<Rightarrow> 'a tr \<Rightarrow> bool" where
  "tree_in s t = (root s = ptr t \<and> repr (store s) None t \<and> distinct (addrs t))"

text \<open>
  A node of a tree is a subtree together with its context: the path from the node up to the
  root, each step recording the node above and the sibling subtree.
\<close>

datatype 'a frame = LeftOf addr Color 'a "'a tr" | RightOf "'a tr" addr Color 'a

fun plug1 :: "'a frame \<Rightarrow> 'a tr \<Rightarrow> 'a tr" where
  "plug1 (LeftOf a c x r) t = Nd t a c x r"
| "plug1 (RightOf l a c x) t = Nd l a c x t"

fun plug :: "'a frame list \<Rightarrow> 'a tr \<Rightarrow> 'a tr" where
  "plug [] t = t"
| "plug (f # fs) t = plug fs (plug1 f t)"

fun faddr :: "'a frame \<Rightarrow> addr" where
  "faddr (LeftOf a c x r) = a"
| "faddr (RightOf l a c x) = a"

fun fcol :: "'a frame \<Rightarrow> Color" where
  "fcol (LeftOf a c x r) = c"
| "fcol (RightOf l a c x) = c"

fun above :: "'a frame list \<Rightarrow> addr option" where
  "above [] = None"
| "above (f # fs) = Some (faddr f)"

fun zroot :: "'a frame list \<Rightarrow> addr option \<Rightarrow> addr option" where
  "zroot [] q = q"
| "zroot (f # fs) q = zroot fs (Some (faddr f))"

fun crepr :: "(addr \<Rightarrow> 'a Node option) \<Rightarrow> 'a frame list \<Rightarrow> addr option \<Rightarrow> bool" where
  "crepr h [] q = True"
| "crepr h (LeftOf a c x r # fs) q =
     (h a = Some \<lparr>parent = above fs, left = q, right = ptr r, color = c, data = x\<rparr>
      \<and> repr h (Some a) r \<and> crepr h fs (Some a))"
| "crepr h (RightOf l a c x # fs) q =
     (h a = Some \<lparr>parent = above fs, left = ptr l, right = q, color = c, data = x\<rparr>
      \<and> repr h (Some a) l \<and> crepr h fs (Some a))"

fun caddrs :: "'a frame list \<Rightarrow> addr list" where
  "caddrs [] = []"
| "caddrs (LeftOf a c x r # fs) = a # addrs r @ caddrs fs"
| "caddrs (RightOf l a c x # fs) = a # addrs l @ caddrs fs"

fun celems :: "'a frame list \<Rightarrow> 'a list" where
  "celems [] = []"
| "celems (LeftOf a c x r # fs) = x # elems r @ celems fs"
| "celems (RightOf l a c x # fs) = x # elems l @ celems fs"

fun ccol :: "'a frame list \<Rightarrow> Color \<Rightarrow> Color" where
  "ccol [] c = c"
| "ccol (f # fs) c = ccol fs (fcol f)"

text \<open>
  \<open>left_ok fs\<close>: the node above has a left child other than the subtree itself. The
  rotations of the source read \<open>parent->left->data\<close> to find out on which side of its parent
  the rotated node hangs, without testing \<open>parent->left\<close>.
\<close>

definition left_ok :: "'a frame list \<Rightarrow> bool" where
  "left_ok fs = (case fs of RightOf Lf a c x # _ \<Rightarrow> False | _ \<Rightarrow> True)"

section \<open>The red-black invariants\<close>

text \<open>
  The root is BLACK, no RED node has a RED child, every path from a node down to an absent
  child passes the same number of BLACK nodes, and the in-order sequence ascends strictly in
  the order of the comparator.
\<close>

fun height :: "'a tr \<Rightarrow> nat" where
  "height Lf = 0"
| "height (Nd l a c x r) = Suc (max (height l) (height r))"

fun bheight :: "'a tr \<Rightarrow> nat" where
  "bheight Lf = 0"
| "bheight (Nd l a c x r) = bheight l + (if c = BLACK then 1 else 0)"

fun balanced :: "'a tr \<Rightarrow> bool" where
  "balanced Lf = True"
| "balanced (Nd l a c x r) = (balanced l \<and> balanced r \<and> bheight l = bheight r)"

fun no_red_red :: "'a tr \<Rightarrow> bool" where
  "no_red_red Lf = True"
| "no_red_red (Nd l a c x r) =
     (no_red_red l \<and> no_red_red r \<and> (c = RED \<longrightarrow> col l = BLACK \<and> col r = BLACK))"

definition ascending :: "('a \<Rightarrow> 'a \<Rightarrow> int) \<Rightarrow> 'a list \<Rightarrow> bool" where
  "ascending cmp xs = sorted_wrt (\<lambda>a b. cmp a b < 0) xs"

definition rb_tree :: "('a \<Rightarrow> 'a \<Rightarrow> int) \<Rightarrow> 'a tr \<Rightarrow> bool" where
  "rb_tree cmp t = (col t = BLACK \<and> no_red_red t \<and> balanced t \<and> ascending cmp (elems t))"

text \<open>The same invariants for a context, seen from the subtree in its hole.\<close>

fun cbal :: "'a frame list \<Rightarrow> nat \<Rightarrow> bool" where
  "cbal [] k = True"
| "cbal (LeftOf a c x r # fs) k =
     (balanced r \<and> bheight r = k \<and> cbal fs (k + (if c = BLACK then 1 else 0)))"
| "cbal (RightOf l a c x # fs) k =
     (balanced l \<and> bheight l = k \<and> cbal fs (k + (if c = BLACK then 1 else 0)))"

fun cnrr :: "'a frame list \<Rightarrow> Color \<Rightarrow> bool" where
  "cnrr [] c = True"
| "cnrr (LeftOf a ca x r # fs) c =
     (no_red_red r \<and> (ca = RED \<longrightarrow> c = BLACK \<and> col r = BLACK) \<and> cnrr fs ca)"
| "cnrr (RightOf l a ca x # fs) c =
     (no_red_red l \<and> (ca = RED \<longrightarrow> c = BLACK \<and> col l = BLACK) \<and> cnrr fs ca)"

text \<open>The path along which treeRBinsert descends to the place of a new element.\<close>

fun ipath :: "('a \<Rightarrow> 'a \<Rightarrow> int) \<Rightarrow> 'a \<Rightarrow> 'a tr \<Rightarrow> 'a frame list" where
  "ipath cmp x Lf = []"
| "ipath cmp x (Nd l a c y r) =
     (if cmp y x < 0 then ipath cmp x r @ [RightOf l a c y]
      else ipath cmp x l @ [LeftOf a c y r])"

text \<open>The three outcomes of a step of fixTreeInsert, on the tree.\<close>

fun sib :: "'a frame \<Rightarrow> 'a tr" where
  "sib (LeftOf a c x r) = r"
| "sib (RightOf l a c x) = l"

fun paint :: "Color \<Rightarrow> 'a tr \<Rightarrow> 'a tr" where
  "paint c Lf = Lf"
| "paint c (Nd l a c' x r) = Nd l a c x r"

fun fpaint :: "Color \<Rightarrow> 'a frame \<Rightarrow> 'a frame" where
  "fpaint c (LeftOf a c' x r) = LeftOf a c x r"
| "fpaint c (RightOf l a c' x) = RightOf l a c x"

fun recolor_gp :: "'a frame \<Rightarrow> 'a frame" where
  "recolor_gp (LeftOf g c x u) = LeftOf g RED x (paint BLACK u)"
| "recolor_gp (RightOf u g c x) = RightOf (paint BLACK u) g RED x"

fun rot_ins :: "'a frame \<Rightarrow> 'a frame \<Rightarrow> 'a tr \<Rightarrow> 'a tr" where
  "rot_ins (LeftOf p cp xp S) (LeftOf g cg xg U) t = Nd t p BLACK xp (Nd S g RED xg U)"
| "rot_ins (LeftOf p cp xp S) (RightOf U g cg xg) (Nd nl n cn xn nr) =
     Nd (Nd U g RED xg nl) n BLACK xn (Nd nr p cp xp S)"
| "rot_ins (RightOf S p cp xp) (RightOf U g cg xg) t = Nd (Nd U g RED xg S) p BLACK xp t"
| "rot_ins (RightOf S p cp xp) (LeftOf g cg xg U) (Nd nl n cn xn nr) =
     Nd (Nd S p cp xp nl) n BLACK xn (Nd nr g RED xg U)"
| "rot_ins f1 f2 Lf = Lf"

section \<open>What a call leaves alone\<close>

text \<open>
  \<open>keep\<close>: the count, the allocator, the destructor log and the set of live cells are the
  same; \<open>dkeep\<close>: and every cell holds the element it held; \<open>frees1 s p s'\<close>: between \<open>s\<close>
  and \<open>s'\<close> the destructor ran once, on the element of the cell at \<open>p\<close>; \<open>fresh\<close>: no cell
  lives at an address that malloc has not handed out yet.
\<close>

definition datas :: "'a RBTree \<Rightarrow> addr \<Rightarrow> 'a option" where
  "datas s a = map_option data (store s a)"

definition allocd :: "'a RBTree \<Rightarrow> addr set" where
  "allocd s = dom (store s)"

definition keep :: "'a RBTree \<Rightarrow> 'a RBTree \<Rightarrow> bool" where
  "keep s s' = (tsize s' = tsize s \<and> nxt s' = nxt s \<and> freed s' = freed s
                \<and> allocd s' = allocd s)"

definition dkeep :: "'a RBTree \<Rightarrow> 'a RBTree \<Rightarrow> bool" where
  "dkeep s s' = (keep s s' \<and> datas s' = datas s)"

definition frees1 :: "'a RBTree \<Rightarrow> addr option \<Rightarrow> 'a RBTree \<Rightarrow> bool" where
  "frees1 s node s' = (tsize s' = tsize s \<and> nxt s' = nxt s \<and>
     (\<exists>a x. node = Some a \<and> datas s a = Some x \<and> freed s' = freed s @ [x]))"

definition fresh :: "'a RBTree \<Rightarrow> bool" where
  "fresh s = (\<forall>a. nxt s \<le> a \<longrightarrow> store s a = None)"

text \<open>A valid tree object: it holds a red-black tree and counts its elements.\<close>

definition rb_valid :: "('a \<Rightarrow> 'a \<Rightarrow> int) \<Rightarrow> 'a RBTree \<Rightarrow> 'a tr \<Rightarrow> bool" where
  "rb_valid cmp s t = (tree_in s t \<and> rb_tree cmp t \<and> tsize s = int (length (elems t)) \<and> fresh s)"

section \<open>Rotations, stated on the tree\<close>



section \<open>Example trees\<close>

text \<open>
  Tree objects in memory, for running the functions: \<open>S2\<close> holds 1 with the right child 2
  (the tree \<open>T2\<close>); \<open>S3\<close> holds 10 above 5 and 20, and 30 below 20; \<open>S4\<close> holds 30 above
  20 and 40, and 10 below 20; \<open>S5\<close> holds 10, below it 30 and below that 20; \<open>S6\<close> holds
  30, below it 10 and below that 20.
\<close>

definition S2 :: "int RBTree" where
  "S2 = \<lparr>root = Some 0, tsize = 2,
          store = (\<lambda>a. if a = 0 then Some \<lparr>parent = None, left = None, right = Some 1, color = BLACK, data = 1\<rparr>
                       else if a = 1 then Some \<lparr>parent = Some 0, left = None, right = None, color = RED, data = 2\<rparr>
                       else None),
          nxt = 2, freed = []\<rparr>"

definition T2 :: "int tr" where
  "T2 = Nd Lf 0 BLACK 1 (Nd Lf 1 RED 2 Lf)"





section \<open>Basic facts about memory access\<close>

lemma bnd_Inr [simp]: "bnd (Inr x) f = f x"
  by (simp add: bnd_def)

lemma bnd_Inl [simp]: "bnd (Inl e) f = Inl e"
  by (simp add: bnd_def)

lemma bnd_eq_Inr: "(bnd m f = Inr y) = (\<exists>x. m = Inr x \<and> f x = Inr y)"
  by (cases m) simp_all

lemma nd_Some: "store s a = Some n \<Longrightarrow> nd s (Some a) = Inr n"
  by (simp add: nd_def)

lemma nd_None [simp]: "nd s None = Inl NullDeref"
  by (simp add: nd_def)

lemma put_Some:
  "store s a = Some n \<Longrightarrow> put (Some a) f s = Inr (s\<lparr>store := (store s)(a \<mapsto> f n)\<rparr>)"
  by (simp add: put_def)

section \<open>Traversal of the empty tree\<close>

text \<open>
  Claim C9. On a tree object whose root pointer is NULL, forEachRBTree returns 1 (success),
  whatever the visitor and its argument are, and the visitor is never called: the list of
  visited elements is empty and the argument comes back as it was.
\<close>

theorem forEach_empty_tree:
  "root s = None \<Longrightarrow> forEachRBTree (Suc k) (Some s) func args = Inr (1, args, [])"
  by (simp add: forEachRBTree_def)

theorem forEach_empty_tree_witness:
  "root (newRBTree :: int RBTree) = None \<and>
   forEachRBTree (Suc 0) (Some (newRBTree :: int RBTree)) (\<lambda>x c. (0, c + x)) (7 :: int)
     = Inr (1, 7, [])"
proof -
  have h: "root (newRBTree :: int RBTree) = None"
    by (simp add: newRBTree_def)
  show ?thesis
    using h forEach_empty_tree [OF h, of 0 "\<lambda>x c. (0, c + x)" 7] by simp
qed

section \<open>Deleting the only element\<close>

text \<open>
  Claim C10. A tree that holds exactly one element is a root cell without children and
  without parent, BLACK as the root of every tree is, and the count is 1. Deleting an
  element that compares equal to the stored one returns 1; afterwards the root pointer is
  NULL, the count is 0, the destructor has been called on the stored element, and
  RBTreeContains answers 0 for every element.
\<close>

theorem delete_single_element:
  assumes rt: "root s = Some a"
    and cell: "store s a = Some \<lparr>parent = None, left = None, right = None, color = BLACK, data = x\<rparr>"
    and sz: "tsize s = 1"
    and eq: "cmp x d = 0"
  shows "\<exists>s'. deleteFromRBTree (Suc k) cmp (Some s) (Some d) = Inr (1, Some s')
           \<and> root s' = None \<and> tsize s' = 0 \<and> freed s' = freed s @ [x]
           \<and> (\<forall>y. RBTreeContains (Suc k) cmp (Some s') y = Inr 0)"
  using assms
  by (simp add: deleteFromRBTree_def RBTreeContains_def nd_Some inOrderSuccessor_def
      fixTreeDelete_def isColor_def removeM_def freeFunc_def free_node_def)

theorem delete_single_element_witness:
  "\<exists>s'. deleteFromRBTree (Suc 0) ordCompare
          (Some \<lparr>root = Some 0, tsize = 1,
                 store = (\<lambda>_. None)(0 \<mapsto> \<lparr>parent = None, left = None, right = None, color = BLACK, data = 5::int\<rparr>),
                 nxt = 1, freed = []\<rparr>) (Some 5) = Inr (1, Some s')
        \<and> root s' = None \<and> tsize s' = 0 \<and> freed s' = [5]
        \<and> (\<forall>y. RBTreeContains (Suc 0) ordCompare (Some s') y = Inr 0)"
  using delete_single_element [of "\<lparr>root = Some 0, tsize = 1,
                 store = (\<lambda>_. None)(0 \<mapsto> \<lparr>parent = None, left = None, right = None, color = BLACK, data = 5::int\<rparr>),
                 nxt = 1, freed = []\<rparr>" 0 5 ordCompare 5 0]
  by (simp add: ordCompare_def)

section \<open>Traversal with a failing visitor\<close>

text \<open>
  Claim C3, evaluated. The tree built by inserting 1, 2, 3, 4, 5 has 4 above 3 and 5. With a
  visitor that returns 0 on 3 and 1 elsewhere, forEachRBTree returns 0 after calling the
  visitor on 1, 2, 3 and also on 4: forEachHelper calls the visitor on a node before it looks
  at the result of the node's left subtree. With a visitor that always returns 1 it returns
  1 after calling the visitor on 1, 2, 3, 4, 5 in this order.
\<close>

theorem forEach_failing_visitor_run:
  "bnd (insertAll 10 ordCompare [1, 2, 3, 4, 5 :: int] newRBTree) (\<lambda>(rs, s).
     forEachRBTree 10 (Some s) (\<lambda>x c. (if x = 3 then 0 else 1, c)) ())
     = Inr (0, (), [1, 2, 3, 4]) \<and>
   bnd (insertAll 10 ordCompare [1, 2, 3, 4, 5 :: int] newRBTree) (\<lambda>(rs, s).
     forEachRBTree 10 (Some s) (\<lambda>x c. (1, c)) ())
     = Inr (1, (), [1, 2, 3, 4, 5])"
  by code_simp

section \<open>The vector comparator\<close>

declare vectorCompareLoop.simps [simp del]

lemma dless_irrefl [simp]: "\<not> dless x x"
  by (cases x) auto

lemma dless_total: "x \<noteq> NaN \<Longrightarrow> y \<noteq> NaN \<Longrightarrow> x \<noteq> y \<Longrightarrow> dless x y \<or> dless y x"
  by (cases x; cases y) auto

lemma dless_eq: "NaN \<noteq> x \<Longrightarrow> NaN \<noteq> y \<Longrightarrow> \<not> dless x y \<Longrightarrow> \<not> dless y x \<Longrightarrow> x = y"
  by (cases x; cases y) auto

lemma dless_asym: "dless x y \<Longrightarrow> \<not> dless y x"
  by (cases x; cases y) auto

lemma loop_firstDiff:
  "vector_wf av \<Longrightarrow> vector_wf bv \<Longrightarrow> 0 \<le> i \<Longrightarrow>
   vectorCompareLoop av bv i = Inr (firstDiff (drop (nat i) (vector av)) (drop (nat i) (vector bv)))"
proof (induction av bv i rule: vectorCompareLoop.induct)
  case (1 av bv i)
  let ?a = "vector av" and ?b = "vector bv"
  show ?case
  proof (cases "i < min_int (len av) (len bv)")
    case False
    then have "length ?a \<le> nat i \<or> length ?b \<le> nat i"
      using "1.prems" by (auto simp: min_int_def vector_wf_def split: if_splits)
    then have "firstDiff (drop (nat i) ?a) (drop (nat i) ?b) = None"
      by (cases "drop (nat i) ?a") auto
    with False show ?thesis
      by (subst vectorCompareLoop.simps) simp
  next
    case True
    then have la: "nat i < length ?a" and lb: "nat i < length ?b"
      using "1.prems" by (auto simp: min_int_def vector_wf_def split: if_splits)
    have da: "drop (nat i) ?a = ?a ! nat i # drop (nat (i + 1)) ?a"
      using la "1.prems"(3) by (simp add: Cons_nth_drop_Suc nat_add_distrib)
    have db: "drop (nat i) ?b = ?b ! nat i # drop (nat (i + 1)) ?b"
      using lb "1.prems"(3) by (simp add: Cons_nth_drop_Suc nat_add_distrib)
    have inb: "\<not> (i < 0 \<or> int (length ?a) \<le> i \<or> int (length ?b) \<le> i)"
      using la lb "1.prems"(3) by linarith
    show ?thesis
    proof (cases "dless (?a ! nat i) (?b ! nat i) \<or> dless (?b ! nat i) (?a ! nat i)")
      case True
      then show ?thesis
        using \<open>i < min_int (len av) (len bv)\<close> inb da db
        by (subst vectorCompareLoop.simps) auto
    next
      case eq: False
      have "vectorCompareLoop av bv (i + 1) =
            Inr (firstDiff (drop (nat (i + 1)) ?a) (drop (nat (i + 1)) ?b))"
        using "1.IH" True eq inb "1.prems" by simp
      then show ?thesis
        using True inb da db eq
        by (subst vectorCompareLoop.simps) auto
    qed
  qed
qed

lemma firstDiff_None:
  "NaN \<notin> set xs \<Longrightarrow> NaN \<notin> set ys \<Longrightarrow>
   (firstDiff xs ys = None) = (take (min (length xs) (length ys)) xs = take (min (length xs) (length ys)) ys)"
  by (induction xs ys rule: firstDiff.induct) (auto dest: dless_eq)

lemma firstDiff_at:
  "i < length xs \<Longrightarrow> i < length ys \<Longrightarrow> take i xs = take i ys \<Longrightarrow> xs ! i \<noteq> ys ! i \<Longrightarrow>
   xs ! i \<noteq> NaN \<Longrightarrow> ys ! i \<noteq> NaN \<Longrightarrow>
   firstDiff xs ys = Some (if dless (xs ! i) (ys ! i) then - 1 else 1)"
proof (induction xs ys arbitrary: i rule: firstDiff.induct)
  case (1 x xs y ys)
  then show ?case by (cases i) (auto dest: dless_total dless_asym)
qed auto

lemma firstDiff_nonzero: "firstDiff xs ys \<noteq> Some 0"
  by (induction xs ys rule: firstDiff.induct) auto

text \<open>
  On well-formed vectors whose components are numbers (no NaN) vectorCompare1By1 is the
  lexicographic comparison: the first index at which the components differ decides, a
  proper prefix is smaller, and the result is 0 exactly for equal vectors.
\<close>

lemma vectorCompare_numbers:
  assumes "vector_wf av" and "vector_wf bv"
    and na: "NaN \<notin> set (vector av)" and nb: "NaN \<notin> set (vector bv)"
  shows "\<exists>r. vectorCompare1By1 av bv = Inr r \<and>
     (\<forall>i. i < length (vector av) \<and> i < length (vector bv) \<and>
          take i (vector av) = take i (vector bv) \<and> vector av ! i \<noteq> vector bv ! i \<longrightarrow>
          r = (if dless (vector av ! i) (vector bv ! i) then - 1 else 1)) \<and>
     (take (min (length (vector av)) (length (vector bv))) (vector av) =
      take (min (length (vector av)) (length (vector bv))) (vector bv) \<longrightarrow>
          r = (if len av < len bv then - 1 else if len av = len bv then 0 else 1)) \<and>
     ((r = 0) = (len av = len bv \<and> vector av = vector bv))"
proof -
  let ?a = "vector av" and ?b = "vector bv"
  let ?m = "min (length ?a) (length ?b)"
  have loop: "vectorCompareLoop av bv 0 = Inr (firstDiff ?a ?b)"
    using loop_firstDiff [OF assms(1,2), of 0] by simp
  have nn: "i < length ?a \<Longrightarrow> ?a ! i \<noteq> NaN" "i < length ?b \<Longrightarrow> ?b ! i \<noteq> NaN" for i
    using na nb nth_mem by metis+
  show ?thesis
  proof (cases "firstDiff ?a ?b")
    case None
    then have pre: "take ?m ?a = take ?m ?b" using firstDiff_None [OF na nb] by simp
    have nodiff: "\<not> (i < length ?a \<and> i < length ?b \<and> take i ?a = take i ?b \<and> ?a ! i \<noteq> ?b ! i)" for i
    proof
      assume h: "i < length ?a \<and> i < length ?b \<and> take i ?a = take i ?b \<and> ?a ! i \<noteq> ?b ! i"
      then have "firstDiff ?a ?b \<noteq> None" using firstDiff_at [of i ?a ?b] nn by simp
      with None show False by simp
    qed
    have eqv: "(len av = len bv) = (?a = ?b)"
    proof
      assume "len av = len bv"
      then have "length ?a = length ?b" using assms by (simp add: vector_wf_def)
      with pre show "?a = ?b" by simp
    next
      assume "?a = ?b" then show "len av = len bv" using assms by (simp add: vector_wf_def)
    qed
    show ?thesis
      using None loop nodiff pre eqv by (auto simp: vectorCompare1By1_def)
  next
    case (Some v)
    then have npre: "take ?m ?a \<noteq> take ?m ?b" using firstDiff_None [OF na nb] by simp
    then have ne: "?a \<noteq> ?b" by auto
    have v0: "v \<noteq> 0" using Some firstDiff_nonzero [of ?a ?b] by auto
    have at: "i < length ?a \<and> i < length ?b \<and> take i ?a = take i ?b \<and> ?a ! i \<noteq> ?b ! i \<longrightarrow>
          v = (if dless (?a ! i) (?b ! i) then - 1 else 1)" for i
      using firstDiff_at [of i ?a ?b] Some nn by auto
    show ?thesis
      using Some loop npre ne v0 at by (auto simp: vectorCompare1By1_def)
  qed
qed

text \<open>
  Claim C8, evaluated. The components are doubles, and for a NaN component both \<open><\<close> and
  \<open>>\<close> are false, so the loop of vectorCompare1By1 passes over an index that holds NaN as
  if the components were equal there. The vectors [NaN] and [1] differ at index 0 and the
  result is 0; [NaN, 2] and [5, 1] differ first at index 0 and the result 1 is decided by
  index 1. The header comment of the function says that the result is 0 iff the vectors are
  equal. Where no component is NaN the claim holds (\<open>vectorCompare_numbers\<close>): [1, 5] is
  smaller than [1, 5, 0].
\<close>

theorem vectorCompare_NaN_run:
  "vectorCompare1By1 \<lparr>len = 1, vector = [NaN]\<rparr> \<lparr>len = 1, vector = [Fin 1]\<rparr> = Inr 0 \<and>
   vectorCompare1By1 \<lparr>len = 2, vector = [NaN, Fin 2]\<rparr> \<lparr>len = 2, vector = [Fin 5, Fin 1]\<rparr> = Inr 1 \<and>
   vectorCompare1By1 \<lparr>len = 2, vector = [Fin 1, Fin 5]\<rparr> \<lparr>len = 3, vector = [Fin 1, Fin 5, Fin 0]\<rparr> = Inr (- 1)"
  by (simp add: vectorCompare1By1_def vectorCompareLoop.simps min_int_def)

section \<open>Trees, contexts and the store\<close>

lemma ptr_plug1 [simp]: "ptr (plug1 f t) = Some (faddr f)"
  by (cases f) auto

lemma ptr_plug: "ptr (plug fs t) = zroot fs (ptr t)"
  by (induction fs arbitrary: t) auto

lemma repr_plug: "repr h None (plug fs t) = (crepr h fs (ptr t) \<and> repr h (above fs) t)"
proof (induction fs arbitrary: t)
  case Nil
  then show ?case by simp
next
  case (Cons f fs)
  then show ?case by (cases f) auto
qed

lemma set_addrs_plug: "set (addrs (plug fs t)) = set (caddrs fs) \<union> set (addrs t)"
proof (induction fs arbitrary: t)
  case Nil
  then show ?case by simp
next
  case (Cons f fs)
  then show ?case by (cases f) auto
qed

lemma distinct_addrs_plug:
  "distinct (addrs (plug fs t)) =
   (distinct (caddrs fs) \<and> distinct (addrs t) \<and> set (caddrs fs) \<inter> set (addrs t) = {})"
proof (induction fs arbitrary: t)
  case Nil
  then show ?case by simp
next
  case (Cons f fs)
  then show ?case by (cases f) auto
qed

lemma set_elems_plug: "set (elems (plug fs t)) = set (celems fs) \<union> set (elems t)"
proof (induction fs arbitrary: t)
  case Nil
  then show ?case by simp
next
  case (Cons f fs)
  then show ?case by (cases f) auto
qed

lemma distinct_elems_plug:
  "distinct (elems (plug fs t)) =
   (distinct (celems fs) \<and> distinct (elems t) \<and> set (celems fs) \<inter> set (elems t) = {})"
proof (induction fs arbitrary: t)
  case Nil
  then show ?case by simp
next
  case (Cons f fs)
  then show ?case by (cases f) auto
qed

lemma elems_plug_cong: "elems t' = elems t \<Longrightarrow> elems (plug fs t') = elems (plug fs t)"
proof (induction fs arbitrary: t t')
  case Nil
  then show ?case by simp
next
  case (Cons f fs)
  then show ?case by (cases f) auto
qed

lemma repr_upd [simp]: "a \<notin> set (addrs t) \<Longrightarrow> repr (h(a := v)) p t = repr h p t"
  by (induction t arbitrary: p) auto

lemma crepr_upd [simp]: "a \<notin> set (caddrs fs) \<Longrightarrow> crepr (h(a := v)) fs q = crepr h fs q"
  by (induction h fs q rule: crepr.induct) auto

lemma tree_in_plug:
  "tree_in s (plug fs t) =
   (root s = zroot fs (ptr t) \<and> crepr (store s) fs (ptr t) \<and> repr (store s) (above fs) t
    \<and> distinct (caddrs fs) \<and> distinct (addrs t) \<and> set (caddrs fs) \<inter> set (addrs t) = {})"
  by (auto simp: tree_in_def ptr_plug repr_plug distinct_addrs_plug)

lemma cmp_ok_eq: "cmp_ok cmp \<Longrightarrow> (cmp a b = 0) = (a = b)"
  by (simp add: cmp_ok_def)

lemma cmp_ok_less: "cmp_ok cmp \<Longrightarrow> (cmp a b < 0) = (a < b)"
  by (simp add: cmp_ok_def)

lemmas heap_ops = nd_def put_def set_left_def set_right_def set_parent_def set_color_def

lemma keep_refl [simp]: "keep s s" by (simp add: keep_def)
lemma keep_trans: "keep s s1 \<Longrightarrow> keep s1 s2 \<Longrightarrow> keep s s2" by (simp add: keep_def)

lemma bndE: "bnd m f = Inr y \<Longrightarrow> (\<And>x. m = Inr x \<Longrightarrow> f x = Inr y \<Longrightarrow> P) \<Longrightarrow> P"
  by (cases m) simp_all

lemma put_keep: "put p f s = Inr s' \<Longrightarrow> keep s s'"
  by (auto simp: put_def keep_def allocd_def split: option.splits if_splits)

lemma set_keep:
  "set_parent p v s = Inr s' \<Longrightarrow> keep s s'"
  "set_left p v s = Inr s' \<Longrightarrow> keep s s'"
  "set_right p v s = Inr s' \<Longrightarrow> keep s s'"
  "set_color p c s = Inr s' \<Longrightarrow> keep s s'"
  "set_data p d s = Inr s' \<Longrightarrow> keep s s'"
  by (auto simp: set_parent_def set_left_def set_right_def set_color_def set_data_def dest: put_keep)

lemma keep_root_upd [simp]: "keep (s\<lparr>root := r\<rparr>) s' = keep s s'"
  by (simp add: keep_def allocd_def)

lemma allocd_root_upd [simp]: "allocd (s\<lparr>root := r\<rparr>) = allocd s"
  by (simp add: allocd_def)

lemma relink_keep: "relink cmp g p s = Inr s' \<Longrightarrow> keep s s'"
  unfolding relink_def
  by (auto elim!: bndE dest!: set_keep split: if_splits simp: keep_def)

lemma rotateLeft2_keep: "rotateLeft2 cmp s n = Inr s' \<Longrightarrow> keep s s'"
  unfolding rotateLeft2_def
  by (auto elim!: bndE dest!: set_keep relink_keep split: if_splits simp: keep_def)

lemma rotateRight2_keep: "rotateRight2 cmp s n = Inr s' \<Longrightarrow> keep s s'"
  unfolding rotateRight2_def
  by (auto elim!: bndE dest!: set_keep relink_keep split: if_splits simp: keep_def)

lemma rotateLeft_keep: "rotateLeft cmp s n = Inr s' \<Longrightarrow> keep s s'"
  unfolding rotateLeft_def
  by (auto elim!: bndE dest!: set_keep rotateLeft2_keep rotateRight2_keep split: if_splits simp: keep_def)

lemma rotateRight_keep: "rotateRight cmp s n = Inr s' \<Longrightarrow> keep s s'"
  unfolding rotateRight_def
  by (auto elim!: bndE dest!: set_keep rotateLeft2_keep rotateRight2_keep split: if_splits simp: keep_def)

lemma fixTreeInsert_keep: "fixTreeInsert k cmp s n = Inr s' \<Longrightarrow> keep s s'"
proof (induction k arbitrary: s n s')
  case 0 then show ?case by simp
next
  case (Suc k)
  from Suc.prems show ?case
    by (auto elim!: bndE dest!: set_keep rotateLeft_keep rotateRight_keep Suc.IH split: if_splits simp: keep_def)
qed

lemma treeRBinsert_keep: "treeRBinsert k cmp s rt new = Inr (r, s') \<Longrightarrow> keep s s'"
proof (induction k arbitrary: s rt r s')
  case 0 then show ?case by simp
next
  case (Suc k)
  from Suc.prems show ?case
    by (auto elim!: bndE dest!: set_keep Suc.IH split: if_splits simp: keep_def Let_def)
qed

lemma datas_root_upd [simp]: "datas (s\<lparr>root := r\<rparr>) = datas s"
  by (simp add: datas_def fun_eq_iff)

lemma put_dkeep: "put p f s = Inr s' \<Longrightarrow> (\<And>n. data (f n) = data n) \<Longrightarrow> dkeep s s'"
  by (auto simp: put_def dkeep_def keep_def datas_def allocd_def fun_eq_iff split: option.splits if_splits)

lemma set_dkeep:
  "set_parent p v s = Inr s' \<Longrightarrow> dkeep s s'"
  "set_left p v s = Inr s' \<Longrightarrow> dkeep s s'"
  "set_right p v s = Inr s' \<Longrightarrow> dkeep s s'"
  "set_color p c s = Inr s' \<Longrightarrow> dkeep s s'"
  by (auto simp: set_parent_def set_left_def set_right_def set_color_def dest: put_dkeep)

lemma rotateRightDelete_dkeep: "rotateRightDelete cmp s p = Inr s' \<Longrightarrow> dkeep s s'"
  unfolding rotateRightDelete_def Let_def
  by (auto elim!: bndE dest!: set_dkeep split: if_splits simp: dkeep_def keep_def)

lemma rotateLeftDelete_dkeep: "rotateLeftDelete cmp s p = Inr s' \<Longrightarrow> dkeep s s'"
  unfolding rotateLeftDelete_def Let_def
  by (auto elim!: bndE dest!: set_dkeep split: if_splits simp: dkeep_def keep_def)

lemma deleteE_dkeep: "deleteE cmp s p side = Inr s' \<Longrightarrow> dkeep s s'"
  unfolding deleteE_def Let_def
  by (auto elim!: bndE dest!: set_dkeep rotateLeftDelete_dkeep rotateRightDelete_dkeep
      split: if_splits simp: dkeep_def keep_def)

lemma deleteD_dkeep: "deleteD cmp s p side = Inr s' \<Longrightarrow> dkeep s s'"
  unfolding deleteD_def Let_def
  by (auto elim!: bndE dest!: set_dkeep rotateLeftDelete_dkeep rotateRightDelete_dkeep deleteE_dkeep
      split: if_splits simp: dkeep_def keep_def)

lemma deleteB_dkeep_step:
  assumes "\<And>s p side s'. delete3 k cmp s p side = Inr s' \<Longrightarrow> dkeep s s'"
    and "deleteB k cmp s p side = Inr s'"
  shows "dkeep s s'"
  using assms(2)
  by (auto elim!: bndE dest!: set_dkeep assms(1) split: if_splits simp: dkeep_def keep_def)

lemma deleteC_dkeep_step:
  assumes "\<And>s p side s'. delete3 k cmp s p side = Inr s' \<Longrightarrow> dkeep s s'"
    and "deleteC k cmp s p side = Inr s'"
  shows "dkeep s s'"
  using assms(2)
  by (auto elim!: bndE dest!: set_dkeep rotateLeftDelete_dkeep rotateRightDelete_dkeep assms(1)
      split: if_splits simp: dkeep_def keep_def)

lemma delete3_dkeep: "delete3 k cmp s p side = Inr s' \<Longrightarrow> dkeep s s'"
proof (induction k arbitrary: s p side s')
  case 0
  then show ?case by simp
next
  case (Suc k)
  have B: "\<And>s p side s'. deleteB k cmp s p side = Inr s' \<Longrightarrow> dkeep s s'"
    using deleteB_dkeep_step Suc.IH by blast
  have C: "\<And>s p side s'. deleteC k cmp s p side = Inr s' \<Longrightarrow> dkeep s s'"
    using deleteC_dkeep_step Suc.IH by blast
  from Suc.prems show ?case
    by (auto elim!: bndE dest!: B C deleteD_dkeep deleteE_dkeep split: if_splits
        simp del: deleteB.simps deleteC.simps simp: dkeep_def keep_def)
qed

lemma nd_datas: "nd s p = Inr N \<Longrightarrow> \<exists>a. p = Some a \<and> datas s a = Some (data N)"
  by (auto simp: nd_def datas_def split: option.splits)

lemma freeFunc_frees1: "freeFunc p s = Inr s' \<Longrightarrow> frees1 s p s'"
  by (auto simp: freeFunc_def frees1_def elim!: bndE dest!: nd_datas)

lemma free_node_fields [simp]:
  "tsize (free_node q s) = tsize s" "nxt (free_node q s) = nxt s"
  "freed (free_node q s) = freed s" "root (free_node q s) = root s"
  by (auto simp: free_node_def split: option.splits)

lemma removeM_frees1: "removeM cmp s node = Inr (side, s') \<Longrightarrow> frees1 s node s'"
  unfolding removeM_def
  by (auto elim!: bndE dest!: set_dkeep freeFunc_frees1 split: if_splits
      simp: dkeep_def keep_def frees1_def)

lemma delete1_frees1: "delete1 cmp s node = Inr s' \<Longrightarrow> frees1 s node s'"
  unfolding delete1_def
  by (auto elim!: bndE dest!: set_dkeep freeFunc_frees1 split: if_splits
      simp: dkeep_def keep_def frees1_def)

lemma delete2_frees1: "delete2 cmp s node side = Inr s' \<Longrightarrow> frees1 s node s'"
  unfolding delete2_def
  by (auto elim!: bndE dest!: set_dkeep freeFunc_frees1 split: if_splits
      simp: dkeep_def keep_def frees1_def)

lemma fixTreeDelete_frees1: "fixTreeDelete k cmp s node = Inr s' \<Longrightarrow> frees1 s node s'"
  unfolding fixTreeDelete_def
  by (auto elim!: bndE dest!: removeM_frees1 delete1_frees1 delete2_frees1 delete3_dkeep
      split: if_splits simp: dkeep_def keep_def frees1_def)

lemma nodeFinder_found:
  "nodeFinder k cmp s p d = Inr node \<Longrightarrow> \<exists>a x. node = Some a \<and> datas s a = Some x \<and> cmp x d = 0"
proof (induction k arbitrary: p)
  case 0
  then show ?case by simp
next
  case (Suc k)
  from Suc.prems show ?case
    by (auto elim!: bndE dest!: Suc.IH nd_datas split: if_splits)
qed

lemma treeReplaceNode_data:
  "treeReplaceNode n c s = Inr s' \<Longrightarrow>
   keep s s' \<and> (\<exists>a b x. n = Some a \<and> c = Some b \<and> datas s a = Some x \<and> datas s' b = Some x)"
  unfolding treeReplaceNode_def set_data_def
  by (auto elim!: bndE simp: put_def nd_def datas_def keep_def allocd_def split: option.splits if_splits)

lemma deleteFromRBTree_result:
  assumes "deleteFromRBTree k cmp (Some s) (Some d) = Inr (r, t')"
  shows "(r = 0 \<and> t' = Some s) \<or>
         (r = 1 \<and> (\<exists>s' e. t' = Some s' \<and> tsize s' = tsize s - 1 \<and> nxt s' = nxt s \<and>
                      freed s' = freed s @ [e] \<and> cmp e d = 0))"
  using assms unfolding deleteFromRBTree_def
  by (auto elim!: bndE dest!: fixTreeDelete_frees1 nodeFinder_found treeReplaceNode_data
      split: if_splits simp: keep_def frees1_def)

lemma treeRBinsert_result:
  "treeRBinsert k cmp s rt new = Inr (r, s') \<Longrightarrow>
   r = 1 \<or> (r = 0 \<and> (\<exists>R N. nd s rt = Inr R \<and> nd s new = Inr N \<and> cmp (data R) (data N) = 0))"
  by (cases k) (auto elim!: bndE split: if_splits simp: Let_def)

lemma insertToRBTree_result:
  assumes "insertToRBTree k cmp (Some s) (Some d) = Inr (r, t')"
    and fresh: "store s (nxt s) = None"
  shows "(r = 0 \<and> t' = Some s) \<or>
         (r = 1 \<and> (\<exists>s'. t' = Some s' \<and> tsize s' = tsize s + 1 \<and> freed s' = freed s))"
proof -
  obtain c where c: "contains k cmp s (root s) d = Inr c"
    using assms(1) by (auto simp: insertToRBTree_def RBTreeContains_def elim!: bndE)
  show ?thesis
  proof (cases "c = 1")
    case True
    then show ?thesis using assms(1) c
      by (simp add: insertToRBTree_def RBTreeContains_def)
  next
    case False
    let ?s1 = "s\<lparr>store := (store s)(nxt s \<mapsto>
            \<lparr>parent = None, left = None, right = None, color = RED, data = d\<rparr>),
        nxt := Suc (nxt s)\<rparr>"
    show ?thesis
    proof (cases "root s")
      case None
      then show ?thesis using assms(1) c False
        by (auto simp: insertToRBTree_def RBTreeContains_def newNode_def set_color_def put_def)
    next
      case (Some a)
      obtain k' where k: "k = Suc k'" using c by (cases k) auto
      obtain n where n: "store s a = Some n" and ne: "cmp (data n) d \<noteq> 0"
        using c False Some k by (auto simp: nd_def elim!: bndE split: option.splits if_splits)
      have an: "a \<noteq> nxt s" using n fresh by auto
      obtain r1 s2 where ins: "treeRBinsert k cmp ?s1 (Some a) (Some (nxt s)) = Inr (r1, s2)"
        using assms(1) c False Some
        by (auto simp: insertToRBTree_def RBTreeContains_def newNode_def elim!: bndE)
      have "r1 \<noteq> 0"
      proof
        assume "r1 = 0"
        with treeRBinsert_result [OF ins] obtain R N where
          "nd ?s1 (Some a) = Inr R" "nd ?s1 (Some (nxt s)) = Inr N" "cmp (data R) (data N) = 0"
          by auto
        then show False using n ne an by (auto simp: nd_def)
      qed
      then have r1: "r1 = 1" using treeRBinsert_result [OF ins] by auto
      from assms(1) c False Some ins r1 obtain s3 where
        fx: "fixTreeInsert k cmp s2 (Some (nxt s)) = Inr s3"
        and res: "r = 1" "t' = Some (s3\<lparr>tsize := tsize s3 + 1\<rparr>)"
        by (auto simp: insertToRBTree_def RBTreeContains_def newNode_def elim!: bndE)
      have "keep ?s1 s2" using treeRBinsert_keep [OF ins] .
      moreover have "keep s2 s3" using fixTreeInsert_keep [OF fx] .
      ultimately show ?thesis using res by (auto simp: keep_def)
    qed
  qed
qed

section \<open>Reading and writing cells; invariants of a plugged tree\<close>

lemmas addr_sym = eq_commute[where 'a = nat]

lemma nd_Some_eq:
  "nd s (Some a) = (case store s a of None \<Rightarrow> Inl NullDeref | Some n \<Rightarrow> Inr n)"
  by (simp add: nd_def)

lemma put_Some_eq:
  "put (Some a) f s = (case store s a of None \<Rightarrow> Inl NullDeref
                       | Some n \<Rightarrow> Inr (s\<lparr>store := (store s)(a \<mapsto> f n)\<rparr>))"
  by (simp add: put_def)

lemmas cell_ops = nd_Some_eq put_Some_eq set_left_def set_right_def set_parent_def set_color_def

lemma plug_append: "plug (fs @ gs) t = plug gs (plug fs t)"
  by (induction fs arbitrary: t) auto

lemma col_plug: "col (plug fs t) = ccol fs (col t)"
proof (induction fs arbitrary: t)
  case Nil
  then show ?case by simp
next
  case (Cons f fs)
  then show ?case by (cases f) auto
qed

lemma bheight_plug_cong: "bheight t' = bheight t \<Longrightarrow> bheight (plug fs t') = bheight (plug fs t)"
proof (induction fs arbitrary: t t')
  case Nil
  then show ?case by simp
next
  case (Cons f fs)
  then show ?case by (cases f) auto
qed

lemma balanced_plug: "balanced (plug fs t) = (balanced t \<and> cbal fs (bheight t))"
proof (induction fs arbitrary: t)
  case Nil
  then show ?case by simp
next
  case (Cons f fs)
  show ?case
  proof (cases f)
    case (LeftOf a c x r)
    show ?thesis unfolding LeftOf by (simp add: Cons.IH) (metis (full_types))
  next
    case (RightOf l a c x)
    show ?thesis unfolding RightOf by (simp add: Cons.IH) (metis (full_types))
  qed
qed

lemma no_red_red_plug: "no_red_red (plug fs t) = (no_red_red t \<and> cnrr fs (col t))"
proof (induction fs arbitrary: t)
  case Nil
  then show ?case by simp
next
  case (Cons f fs)
  then show ?case by (cases f) auto
qed

lemma plug_ipath: "plug (ipath cmp x t) Lf = t"
  by (induction t) (auto simp: plug_append)

lemma length_ipath: "length (ipath cmp x t) \<le> height t"
  by (induction t) auto

lemma height_le_size: "height t \<le> length (elems t)"
  by (induction t) auto

lemma ascending_strict: "cmp_ok cmp \<Longrightarrow> ascending cmp xs = sorted_wrt (<) xs"
  by (simp add: ascending_def cmp_ok_less)

lemma elems_ins:
  "cmp_ok cmp \<Longrightarrow> sorted_wrt (<) (elems t) \<Longrightarrow> x \<notin> set (elems t) \<Longrightarrow>
   sorted_wrt (<) (elems (plug (ipath cmp x t) (Nd Lf n c x Lf)))
   \<and> set (elems (plug (ipath cmp x t) (Nd Lf n c x Lf))) = insert x (set (elems t))"
proof (induction t)
  case Lf
  then show ?case by simp
next
  case (Nd l a c' y r)
  then show ?case
    by (auto simp: plug_append sorted_wrt_append cmp_ok_less)
qed

lemma contains_repr:
  "cmp_ok cmp \<Longrightarrow> repr (store s) p t \<Longrightarrow> sorted_wrt (<) (elems t) \<Longrightarrow> height t < k \<Longrightarrow>
   contains k cmp s (ptr t) d = Inr (if d \<in> set (elems t) then 1 else 0)"
proof (induction t arbitrary: k p)
  case Lf
  then show ?case by (cases k) auto
next
  case (Nd l a c y r)
  then obtain k' where k: "k = Suc k'" by (cases k) auto
  have cell: "store s a = Some \<lparr>parent = p, left = ptr l, right = ptr r, color = c, data = y\<rparr>"
    using Nd.prems by simp
  have l: "contains k' cmp s (ptr l) d = Inr (if d \<in> set (elems l) then 1 else 0)"
    using Nd.IH(1) [of "Some a" k'] Nd.prems k by (simp add: sorted_wrt_append)
  have r: "contains k' cmp s (ptr r) d = Inr (if d \<in> set (elems r) then 1 else 0)"
    using Nd.IH(2) [of "Some a" k'] Nd.prems k by (simp add: sorted_wrt_append)
  have ord: "\<forall>z \<in> set (elems l). z < y" "\<forall>z \<in> set (elems r). y < z"
    using Nd.prems(3) by (auto simp: sorted_wrt_append)
  show ?case
    using Nd.prems(1) ord
    by (auto simp: k nd_Some_eq cell l r cmp_ok_eq cmp_ok_less)
qed

section \<open>The descent of treeRBinsert\<close>

lemma treeRBinsert_plug:
  assumes ok: "cmp_ok cmp"
  shows "tree_in s (plug fs u) \<Longrightarrow> u \<noteq> Lf \<Longrightarrow>
     store s n = Some \<lparr>parent = None, left = None, right = None, color = RED, data = x\<rparr> \<Longrightarrow>
     n \<notin> set (addrs (plug fs u)) \<Longrightarrow> x \<notin> set (elems u) \<Longrightarrow> height u \<le> k \<Longrightarrow>
     \<exists>s'. treeRBinsert k cmp s (ptr u) (Some n) = Inr (1, s')
          \<and> tree_in s' (plug (ipath cmp x u @ fs) (Nd Lf n RED x Lf))"
proof (induction u arbitrary: fs k)
  case Lf
  then show ?case by simp
next
  case (Nd l a c y r)
  obtain k' where k: "k = Suc k'" using Nd.prems(6) by (cases k) auto
  note T = Nd.prems(1)[unfolded tree_in_plug, simplified, simplified addr_sym Int_commute]
  note N = Nd.prems(4)[unfolded set_addrs_plug, simplified, simplified addr_sym Int_commute]
  note cell = Nd.prems(3)
  have xy: "x \<noteq> y" using Nd.prems(5) by auto
  show ?case
  proof (cases "cmp y x < 0")
    case True
    then have c: "cmp y x \<noteq> 0" by simp
    show ?thesis
    proof (cases r)
      case Lf
      note T' = Nd.prems(1)[unfolded Lf tree_in_plug, simplified, simplified addr_sym Int_commute]
      note N' = Nd.prems(4)[unfolded Lf set_addrs_plug, simplified, simplified addr_sym Int_commute]
      show ?thesis unfolding Lf k ipath.simps append_Nil append_Cons tree_in_plug
        by (simp add: cell_ops Let_def T' N' cell True c addr_sym Int_commute)
    next
      case rN: (Nd rl ra rc ry rr)
      have pl: "plug (RightOf l a c y # fs) r = plug fs (Nd l a c y r)" by simp
      have "\<exists>s'. treeRBinsert k' cmp s (ptr r) (Some n) = Inr (1, s')
          \<and> tree_in s' (plug (ipath cmp x r @ (RightOf l a c y # fs)) (Nd Lf n RED x Lf))"
        using Nd.IH(2)[of "RightOf l a c y # fs" k'] Nd.prems k rN unfolding pl by auto
      then obtain s' where s': "treeRBinsert k' cmp s (ptr r) (Some n) = Inr (1, s')"
        "tree_in s' (plug (ipath cmp x r @ (RightOf l a c y # fs)) (Nd Lf n RED x Lf))" by blast
      have ex: "treeRBinsert k cmp s (Some a) (Some n) = Inr (1, s')"
        unfolding k using s'(1) rN
        by (simp add: cell_ops Let_def T N cell True c addr_sym Int_commute)
      show ?thesis using ex s'(2) True by simp
    qed
  next
    case False
    then have c: "cmp y x \<noteq> 0" using ok xy by (simp add: cmp_ok_eq)
    show ?thesis
    proof (cases l)
      case Lf
      note T' = Nd.prems(1)[unfolded Lf tree_in_plug, simplified, simplified addr_sym Int_commute]
      note N' = Nd.prems(4)[unfolded Lf set_addrs_plug, simplified, simplified addr_sym Int_commute]
      show ?thesis unfolding Lf k ipath.simps append_Nil append_Cons tree_in_plug
        by (simp add: cell_ops Let_def T' N' cell False c addr_sym Int_commute)
    next
      case lN: (Nd ll la lc ly lr)
      have pl: "plug (LeftOf a c y r # fs) l = plug fs (Nd l a c y r)" by simp
      have "\<exists>s'. treeRBinsert k' cmp s (ptr l) (Some n) = Inr (1, s')
          \<and> tree_in s' (plug (ipath cmp x l @ (LeftOf a c y r # fs)) (Nd Lf n RED x Lf))"
        using Nd.IH(1)[of "LeftOf a c y r # fs" k'] Nd.prems k lN unfolding pl by auto
      then obtain s' where s': "treeRBinsert k' cmp s (ptr l) (Some n) = Inr (1, s')"
        "tree_in s' (plug (ipath cmp x l @ (LeftOf a c y r # fs)) (Nd Lf n RED x Lf))" by blast
      have ex: "treeRBinsert k cmp s (Some a) (Some n) = Inr (1, s')"
        unfolding k using s'(1) lN
        by (simp add: cell_ops Let_def T N cell False c addr_sym Int_commute)
      show ?thesis using ex s'(2) False by simp
    qed
  qed
qed

section \<open>The rotations on the tree\<close>







section \<open>The rotations of the insertion, with their recolouring\<close>

lemma rotateRight_outer:
  assumes ok: "cmp_ok cmp"
    and t: "tree_in s (plug fs (Nd (Nd (Nd nl n cn xn nr) p cp xp S) g cg xg U))"
    and d: "distinct (elems (plug fs (Nd (Nd (Nd nl n cn xn nr) p cp xp S) g cg xg U)))"
    and lk: "left_ok fs"
  shows "\<exists>s'. rotateRight cmp s (Some n) = Inr s' \<and> tree_in s' (plug fs (Nd (Nd nl n cn xn nr) p BLACK xp (Nd S g RED xg U)))"
proof (cases fs)
  case Nil
  note e1 = Nil
  show ?thesis
  proof (cases S)
    case Lf
    note e2 = Lf
    show ?thesis
    proof (cases U)
      case Lf
      note e3 = Lf
      show ?thesis
      proof -
        note T = t[unfolded e1 e2 e3 tree_in_plug, simplified, simplified addr_sym Int_commute Int_Un_distrib Int_Un_distrib2 Un_empty]
        have c: "cmp xp xp = 0"
          using ok d unfolding e1 e2 e3 by (auto simp: cmp_ok_eq distinct_elems_plug)
        show ?thesis unfolding e1 e2 e3 tree_in_plug
          by (simp add: rotateLeft_def rotateRight_def rotateLeft2_def rotateRight2_def relink_def getParent_def cell_ops Let_def T addr_sym Int_commute Int_Un_distrib Int_Un_distrib2 Un_empty c)
      qed
    next
      case (Nd Ul aU cU xU Ur)
      note e4 = Nd
      show ?thesis
      proof -
        note T = t[unfolded e1 e2 e4 tree_in_plug, simplified, simplified addr_sym Int_commute Int_Un_distrib Int_Un_distrib2 Un_empty]
        have c: "cmp xp xp = 0" "cmp xp xU \<noteq> 0"
          using ok d unfolding e1 e2 e4 by (auto simp: cmp_ok_eq distinct_elems_plug)
        show ?thesis unfolding e1 e2 e4 tree_in_plug
          by (simp add: rotateLeft_def rotateRight_def rotateLeft2_def rotateRight2_def relink_def getParent_def cell_ops Let_def T addr_sym Int_commute Int_Un_distrib Int_Un_distrib2 Un_empty c)
      qed
    qed
  next
    case (Nd Sl aS cS xS Sr)
    note e5 = Nd
    show ?thesis
    proof (cases U)
      case Lf
      note e6 = Lf
      show ?thesis
      proof -
        note T = t[unfolded e1 e5 e6 tree_in_plug, simplified, simplified addr_sym Int_commute Int_Un_distrib Int_Un_distrib2 Un_empty]
        have c: "cmp xp xp = 0"
          using ok d unfolding e1 e5 e6 by (auto simp: cmp_ok_eq distinct_elems_plug)
        show ?thesis unfolding e1 e5 e6 tree_in_plug
          by (simp add: rotateLeft_def rotateRight_def rotateLeft2_def rotateRight2_def relink_def getParent_def cell_ops Let_def T addr_sym Int_commute Int_Un_distrib Int_Un_distrib2 Un_empty c)
      qed
    next
      case (Nd Ul aU cU xU Ur)
      note e7 = Nd
      show ?thesis
      proof -
        note T = t[unfolded e1 e5 e7 tree_in_plug, simplified, simplified addr_sym Int_commute Int_Un_distrib Int_Un_distrib2 Un_empty]
        have c: "cmp xp xp = 0" "cmp xp xU \<noteq> 0"
          using ok d unfolding e1 e5 e7 by (auto simp: cmp_ok_eq distinct_elems_plug)
        show ?thesis unfolding e1 e5 e7 tree_in_plug
          by (simp add: rotateLeft_def rotateRight_def rotateLeft2_def rotateRight2_def relink_def getParent_def cell_ops Let_def T addr_sym Int_commute Int_Un_distrib Int_Un_distrib2 Un_empty c)
      qed
    qed
  qed
next
  case (Cons ffs fs')
  note e8 = Cons
  show ?thesis
  proof (cases ffs)
    case (LeftOf gfs cgfs xgfs Rfs)
    note e9 = LeftOf
    show ?thesis
    proof (cases S)
      case Lf
      note e10 = Lf
      show ?thesis
      proof (cases U)
        case Lf
        note e11 = Lf
        show ?thesis
        proof -
          note T = t[unfolded e8 e9 e10 e11 tree_in_plug, simplified, simplified addr_sym Int_commute Int_Un_distrib Int_Un_distrib2 Un_empty]
          have c: "cmp xg xg = 0" "cmp xp xp = 0"
            using ok d unfolding e8 e9 e10 e11 by (auto simp: cmp_ok_eq distinct_elems_plug)
          show ?thesis unfolding e8 e9 e10 e11 tree_in_plug
            by (simp add: rotateLeft_def rotateRight_def rotateLeft2_def rotateRight2_def relink_def getParent_def cell_ops Let_def T addr_sym Int_commute Int_Un_distrib Int_Un_distrib2 Un_empty c)
        qed
      next
        case (Nd Ul aU cU xU Ur)
        note e12 = Nd
        show ?thesis
        proof -
          note T = t[unfolded e8 e9 e10 e12 tree_in_plug, simplified, simplified addr_sym Int_commute Int_Un_distrib Int_Un_distrib2 Un_empty]
          have c: "cmp xg xg = 0" "cmp xp xp = 0" "cmp xp xU \<noteq> 0"
            using ok d unfolding e8 e9 e10 e12 by (auto simp: cmp_ok_eq distinct_elems_plug)
          show ?thesis unfolding e8 e9 e10 e12 tree_in_plug
            by (simp add: rotateLeft_def rotateRight_def rotateLeft2_def rotateRight2_def relink_def getParent_def cell_ops Let_def T addr_sym Int_commute Int_Un_distrib Int_Un_distrib2 Un_empty c)
        qed
      qed
    next
      case (Nd Sl aS cS xS Sr)
      note e13 = Nd
      show ?thesis
      proof (cases U)
        case Lf
        note e14 = Lf
        show ?thesis
        proof -
          note T = t[unfolded e8 e9 e13 e14 tree_in_plug, simplified, simplified addr_sym Int_commute Int_Un_distrib Int_Un_distrib2 Un_empty]
          have c: "cmp xg xg = 0" "cmp xp xp = 0"
            using ok d unfolding e8 e9 e13 e14 by (auto simp: cmp_ok_eq distinct_elems_plug)
          show ?thesis unfolding e8 e9 e13 e14 tree_in_plug
            by (simp add: rotateLeft_def rotateRight_def rotateLeft2_def rotateRight2_def relink_def getParent_def cell_ops Let_def T addr_sym Int_commute Int_Un_distrib Int_Un_distrib2 Un_empty c)
        qed
      next
        case (Nd Ul aU cU xU Ur)
        note e15 = Nd
        show ?thesis
        proof -
          note T = t[unfolded e8 e9 e13 e15 tree_in_plug, simplified, simplified addr_sym Int_commute Int_Un_distrib Int_Un_distrib2 Un_empty]
          have c: "cmp xg xg = 0" "cmp xp xp = 0" "cmp xp xU \<noteq> 0"
            using ok d unfolding e8 e9 e13 e15 by (auto simp: cmp_ok_eq distinct_elems_plug)
          show ?thesis unfolding e8 e9 e13 e15 tree_in_plug
            by (simp add: rotateLeft_def rotateRight_def rotateLeft2_def rotateRight2_def relink_def getParent_def cell_ops Let_def T addr_sym Int_commute Int_Un_distrib Int_Un_distrib2 Un_empty c)
        qed
      qed
    qed
  next
    case (RightOf Lfs gfs cgfs xgfs)
    note e16 = RightOf
    obtain Lfsl aLfs cLfs xLfs Lfsr where e17: "Lfs = Nd Lfsl aLfs cLfs xLfs Lfsr"
      using lk e8 e16 by (cases Lfs) (auto simp: left_ok_def)
    show ?thesis
    proof (cases S)
      case Lf
      note e18 = Lf
      show ?thesis
      proof (cases U)
        case Lf
        note e19 = Lf
        show ?thesis
        proof -
          note T = t[unfolded e8 e16 e17 e18 e19 tree_in_plug, simplified, simplified addr_sym Int_commute Int_Un_distrib Int_Un_distrib2 Un_empty]
          have c: "cmp xg xLfs \<noteq> 0" "cmp xLfs xg \<noteq> 0" "cmp xp xp = 0"
            using ok d unfolding e8 e16 e17 e18 e19 by (auto simp: cmp_ok_eq distinct_elems_plug)
          show ?thesis unfolding e8 e16 e17 e18 e19 tree_in_plug
            by (simp add: rotateLeft_def rotateRight_def rotateLeft2_def rotateRight2_def relink_def getParent_def cell_ops Let_def T addr_sym Int_commute Int_Un_distrib Int_Un_distrib2 Un_empty c)
        qed
      next
        case (Nd Ul aU cU xU Ur)
        note e20 = Nd
        show ?thesis
        proof -
          note T = t[unfolded e8 e16 e17 e18 e20 tree_in_plug, simplified, simplified addr_sym Int_commute Int_Un_distrib Int_Un_distrib2 Un_empty]
          have c: "cmp xg xLfs \<noteq> 0" "cmp xLfs xg \<noteq> 0" "cmp xp xp = 0" "cmp xp xU \<noteq> 0"
            using ok d unfolding e8 e16 e17 e18 e20 by (auto simp: cmp_ok_eq distinct_elems_plug)
          show ?thesis unfolding e8 e16 e17 e18 e20 tree_in_plug
            by (simp add: rotateLeft_def rotateRight_def rotateLeft2_def rotateRight2_def relink_def getParent_def cell_ops Let_def T addr_sym Int_commute Int_Un_distrib Int_Un_distrib2 Un_empty c)
        qed
      qed
    next
      case (Nd Sl aS cS xS Sr)
      note e21 = Nd
      show ?thesis
      proof (cases U)
        case Lf
        note e22 = Lf
        show ?thesis
        proof -
          note T = t[unfolded e8 e16 e17 e21 e22 tree_in_plug, simplified, simplified addr_sym Int_commute Int_Un_distrib Int_Un_distrib2 Un_empty]
          have c: "cmp xg xLfs \<noteq> 0" "cmp xLfs xg \<noteq> 0" "cmp xp xp = 0"
            using ok d unfolding e8 e16 e17 e21 e22 by (auto simp: cmp_ok_eq distinct_elems_plug)
          show ?thesis unfolding e8 e16 e17 e21 e22 tree_in_plug
            by (simp add: rotateLeft_def rotateRight_def rotateLeft2_def rotateRight2_def relink_def getParent_def cell_ops Let_def T addr_sym Int_commute Int_Un_distrib Int_Un_distrib2 Un_empty c)
        qed
      next
        case (Nd Ul aU cU xU Ur)
        note e23 = Nd
        show ?thesis
        proof -
          note T = t[unfolded e8 e16 e17 e21 e23 tree_in_plug, simplified, simplified addr_sym Int_commute Int_Un_distrib Int_Un_distrib2 Un_empty]
          have c: "cmp xg xLfs \<noteq> 0" "cmp xLfs xg \<noteq> 0" "cmp xp xp = 0" "cmp xp xU \<noteq> 0"
            using ok d unfolding e8 e16 e17 e21 e23 by (auto simp: cmp_ok_eq distinct_elems_plug)
          show ?thesis unfolding e8 e16 e17 e21 e23 tree_in_plug
            by (simp add: rotateLeft_def rotateRight_def rotateLeft2_def rotateRight2_def relink_def getParent_def cell_ops Let_def T addr_sym Int_commute Int_Un_distrib Int_Un_distrib2 Un_empty c)
        qed
      qed
    qed
  qed
qed

lemma rotateRight_inner:
  assumes ok: "cmp_ok cmp"
    and t: "tree_in s (plug fs (Nd U g cg xg (Nd (Nd nl n cn xn nr) p cp xp S)))"
    and d: "distinct (elems (plug fs (Nd U g cg xg (Nd (Nd nl n cn xn nr) p cp xp S))))"
    and lk: "left_ok fs"
  shows "\<exists>s'. rotateRight cmp s (Some n) = Inr s' \<and> tree_in s' (plug fs (Nd (Nd U g RED xg nl) n BLACK xn (Nd nr p cp xp S)))"
proof (cases fs)
  case Nil
  note e1 = Nil
  show ?thesis
  proof (cases nl)
    case Lf
    note e2 = Lf
    show ?thesis
    proof (cases nr)
      case Lf
      note e3 = Lf
      show ?thesis
      proof -
        note T = t[unfolded e1 e2 e3 tree_in_plug, simplified, simplified addr_sym Int_commute Int_Un_distrib Int_Un_distrib2 Un_empty]
        have c: "cmp xp xp = 0"
          using ok d unfolding e1 e2 e3 by (auto simp: cmp_ok_eq distinct_elems_plug)
        show ?thesis unfolding e1 e2 e3 tree_in_plug
          by (simp add: rotateLeft_def rotateRight_def rotateLeft2_def rotateRight2_def relink_def getParent_def cell_ops Let_def T addr_sym Int_commute Int_Un_distrib Int_Un_distrib2 Un_empty c)
      qed
    next
      case (Nd nrl anr cnr xnr nrr)
      note e4 = Nd
      show ?thesis
      proof -
        note T = t[unfolded e1 e2 e4 tree_in_plug, simplified, simplified addr_sym Int_commute Int_Un_distrib Int_Un_distrib2 Un_empty]
        have c: "cmp xp xp = 0"
          using ok d unfolding e1 e2 e4 by (auto simp: cmp_ok_eq distinct_elems_plug)
        show ?thesis unfolding e1 e2 e4 tree_in_plug
          by (simp add: rotateLeft_def rotateRight_def rotateLeft2_def rotateRight2_def relink_def getParent_def cell_ops Let_def T addr_sym Int_commute Int_Un_distrib Int_Un_distrib2 Un_empty c)
      qed
    qed
  next
    case (Nd nll anl cnl xnl nlr)
    note e5 = Nd
    show ?thesis
    proof (cases nr)
      case Lf
      note e6 = Lf
      show ?thesis
      proof -
        note T = t[unfolded e1 e5 e6 tree_in_plug, simplified, simplified addr_sym Int_commute Int_Un_distrib Int_Un_distrib2 Un_empty]
        have c: "cmp xp xp = 0"
          using ok d unfolding e1 e5 e6 by (auto simp: cmp_ok_eq distinct_elems_plug)
        show ?thesis unfolding e1 e5 e6 tree_in_plug
          by (simp add: rotateLeft_def rotateRight_def rotateLeft2_def rotateRight2_def relink_def getParent_def cell_ops Let_def T addr_sym Int_commute Int_Un_distrib Int_Un_distrib2 Un_empty c)
      qed
    next
      case (Nd nrl anr cnr xnr nrr)
      note e7 = Nd
      show ?thesis
      proof -
        note T = t[unfolded e1 e5 e7 tree_in_plug, simplified, simplified addr_sym Int_commute Int_Un_distrib Int_Un_distrib2 Un_empty]
        have c: "cmp xp xp = 0"
          using ok d unfolding e1 e5 e7 by (auto simp: cmp_ok_eq distinct_elems_plug)
        show ?thesis unfolding e1 e5 e7 tree_in_plug
          by (simp add: rotateLeft_def rotateRight_def rotateLeft2_def rotateRight2_def relink_def getParent_def cell_ops Let_def T addr_sym Int_commute Int_Un_distrib Int_Un_distrib2 Un_empty c)
      qed
    qed
  qed
next
  case (Cons ffs fs')
  note e8 = Cons
  show ?thesis
  proof (cases ffs)
    case (LeftOf gfs cgfs xgfs Rfs)
    note e9 = LeftOf
    show ?thesis
    proof (cases nl)
      case Lf
      note e10 = Lf
      show ?thesis
      proof (cases nr)
        case Lf
        note e11 = Lf
        show ?thesis
        proof -
          note T = t[unfolded e8 e9 e10 e11 tree_in_plug, simplified, simplified addr_sym Int_commute Int_Un_distrib Int_Un_distrib2 Un_empty]
          have c: "cmp xg xg = 0" "cmp xp xp = 0"
            using ok d unfolding e8 e9 e10 e11 by (auto simp: cmp_ok_eq distinct_elems_plug)
          show ?thesis unfolding e8 e9 e10 e11 tree_in_plug
            by (simp add: rotateLeft_def rotateRight_def rotateLeft2_def rotateRight2_def relink_def getParent_def cell_ops Let_def T addr_sym Int_commute Int_Un_distrib Int_Un_distrib2 Un_empty c)
        qed
      next
        case (Nd nrl anr cnr xnr nrr)
        note e12 = Nd
        show ?thesis
        proof -
          note T = t[unfolded e8 e9 e10 e12 tree_in_plug, simplified, simplified addr_sym Int_commute Int_Un_distrib Int_Un_distrib2 Un_empty]
          have c: "cmp xg xg = 0" "cmp xp xp = 0"
            using ok d unfolding e8 e9 e10 e12 by (auto simp: cmp_ok_eq distinct_elems_plug)
          show ?thesis unfolding e8 e9 e10 e12 tree_in_plug
            by (simp add: rotateLeft_def rotateRight_def rotateLeft2_def rotateRight2_def relink_def getParent_def cell_ops Let_def T addr_sym Int_commute Int_Un_distrib Int_Un_distrib2 Un_empty c)
        qed
      qed
    next
      case (Nd nll anl cnl xnl nlr)
      note e13 = Nd
      show ?thesis
      proof (cases nr)
        case Lf
        note e14 = Lf
        show ?thesis
        proof -
          note T = t[unfolded e8 e9 e13 e14 tree_in_plug, simplified, simplified addr_sym Int_commute Int_Un_distrib Int_Un_distrib2 Un_empty]
          have c: "cmp xg xg = 0" "cmp xp xp = 0"
            using ok d unfolding e8 e9 e13 e14 by (auto simp: cmp_ok_eq distinct_elems_plug)
          show ?thesis unfolding e8 e9 e13 e14 tree_in_plug
            by (simp add: rotateLeft_def rotateRight_def rotateLeft2_def rotateRight2_def relink_def getParent_def cell_ops Let_def T addr_sym Int_commute Int_Un_distrib Int_Un_distrib2 Un_empty c)
        qed
      next
        case (Nd nrl anr cnr xnr nrr)
        note e15 = Nd
        show ?thesis
        proof -
          note T = t[unfolded e8 e9 e13 e15 tree_in_plug, simplified, simplified addr_sym Int_commute Int_Un_distrib Int_Un_distrib2 Un_empty]
          have c: "cmp xg xg = 0" "cmp xp xp = 0"
            using ok d unfolding e8 e9 e13 e15 by (auto simp: cmp_ok_eq distinct_elems_plug)
          show ?thesis unfolding e8 e9 e13 e15 tree_in_plug
            by (simp add: rotateLeft_def rotateRight_def rotateLeft2_def rotateRight2_def relink_def getParent_def cell_ops Let_def T addr_sym Int_commute Int_Un_distrib Int_Un_distrib2 Un_empty c)
        qed
      qed
    qed
  next
    case (RightOf Lfs gfs cgfs xgfs)
    note e16 = RightOf
    obtain Lfsl aLfs cLfs xLfs Lfsr where e17: "Lfs = Nd Lfsl aLfs cLfs xLfs Lfsr"
      using lk e8 e16 by (cases Lfs) (auto simp: left_ok_def)
    show ?thesis
    proof (cases nl)
      case Lf
      note e18 = Lf
      show ?thesis
      proof (cases nr)
        case Lf
        note e19 = Lf
        show ?thesis
        proof -
          note T = t[unfolded e8 e16 e17 e18 e19 tree_in_plug, simplified, simplified addr_sym Int_commute Int_Un_distrib Int_Un_distrib2 Un_empty]
          have c: "cmp xg xLfs \<noteq> 0" "cmp xLfs xg \<noteq> 0" "cmp xp xp = 0"
            using ok d unfolding e8 e16 e17 e18 e19 by (auto simp: cmp_ok_eq distinct_elems_plug)
          show ?thesis unfolding e8 e16 e17 e18 e19 tree_in_plug
            by (simp add: rotateLeft_def rotateRight_def rotateLeft2_def rotateRight2_def relink_def getParent_def cell_ops Let_def T addr_sym Int_commute Int_Un_distrib Int_Un_distrib2 Un_empty c)
        qed
      next
        case (Nd nrl anr cnr xnr nrr)
        note e20 = Nd
        show ?thesis
        proof -
          note T = t[unfolded e8 e16 e17 e18 e20 tree_in_plug, simplified, simplified addr_sym Int_commute Int_Un_distrib Int_Un_distrib2 Un_empty]
          have c: "cmp xg xLfs \<noteq> 0" "cmp xLfs xg \<noteq> 0" "cmp xp xp = 0"
            using ok d unfolding e8 e16 e17 e18 e20 by (auto simp: cmp_ok_eq distinct_elems_plug)
          show ?thesis unfolding e8 e16 e17 e18 e20 tree_in_plug
            by (simp add: rotateLeft_def rotateRight_def rotateLeft2_def rotateRight2_def relink_def getParent_def cell_ops Let_def T addr_sym Int_commute Int_Un_distrib Int_Un_distrib2 Un_empty c)
        qed
      qed
    next
      case (Nd nll anl cnl xnl nlr)
      note e21 = Nd
      show ?thesis
      proof (cases nr)
        case Lf
        note e22 = Lf
        show ?thesis
        proof -
          note T = t[unfolded e8 e16 e17 e21 e22 tree_in_plug, simplified, simplified addr_sym Int_commute Int_Un_distrib Int_Un_distrib2 Un_empty]
          have c: "cmp xg xLfs \<noteq> 0" "cmp xLfs xg \<noteq> 0" "cmp xp xp = 0"
            using ok d unfolding e8 e16 e17 e21 e22 by (auto simp: cmp_ok_eq distinct_elems_plug)
          show ?thesis unfolding e8 e16 e17 e21 e22 tree_in_plug
            by (simp add: rotateLeft_def rotateRight_def rotateLeft2_def rotateRight2_def relink_def getParent_def cell_ops Let_def T addr_sym Int_commute Int_Un_distrib Int_Un_distrib2 Un_empty c)
        qed
      next
        case (Nd nrl anr cnr xnr nrr)
        note e23 = Nd
        show ?thesis
        proof -
          note T = t[unfolded e8 e16 e17 e21 e23 tree_in_plug, simplified, simplified addr_sym Int_commute Int_Un_distrib Int_Un_distrib2 Un_empty]
          have c: "cmp xg xLfs \<noteq> 0" "cmp xLfs xg \<noteq> 0" "cmp xp xp = 0"
            using ok d unfolding e8 e16 e17 e21 e23 by (auto simp: cmp_ok_eq distinct_elems_plug)
          show ?thesis unfolding e8 e16 e17 e21 e23 tree_in_plug
            by (simp add: rotateLeft_def rotateRight_def rotateLeft2_def rotateRight2_def relink_def getParent_def cell_ops Let_def T addr_sym Int_commute Int_Un_distrib Int_Un_distrib2 Un_empty c)
        qed
      qed
    qed
  qed
qed

lemma rotateLeft_outer:
  assumes ok: "cmp_ok cmp"
    and t: "tree_in s (plug fs (Nd U g cg xg (Nd S p cp xp (Nd nl n cn xn nr))))"
    and d: "distinct (elems (plug fs (Nd U g cg xg (Nd S p cp xp (Nd nl n cn xn nr)))))"
    and lk: "left_ok fs"
  shows "\<exists>s'. rotateLeft cmp s (Some n) = Inr s' \<and> tree_in s' (plug fs (Nd (Nd U g RED xg S) p BLACK xp (Nd nl n cn xn nr)))"
proof (cases fs)
  case Nil
  note e1 = Nil
  show ?thesis
  proof (cases S)
    case Lf
    note e2 = Lf
    show ?thesis
    proof (cases U)
      case Lf
      note e3 = Lf
      show ?thesis
      proof -
        note T = t[unfolded e1 e2 e3 tree_in_plug, simplified, simplified addr_sym Int_commute Int_Un_distrib Int_Un_distrib2 Un_empty]
        have c: "cmp xp xp = 0"
          using ok d unfolding e1 e2 e3 by (auto simp: cmp_ok_eq distinct_elems_plug)
        show ?thesis unfolding e1 e2 e3 tree_in_plug
          by (simp add: rotateLeft_def rotateRight_def rotateLeft2_def rotateRight2_def relink_def getParent_def cell_ops Let_def T addr_sym Int_commute Int_Un_distrib Int_Un_distrib2 Un_empty c)
      qed
    next
      case (Nd Ul aU cU xU Ur)
      note e4 = Nd
      show ?thesis
      proof -
        note T = t[unfolded e1 e2 e4 tree_in_plug, simplified, simplified addr_sym Int_commute Int_Un_distrib Int_Un_distrib2 Un_empty]
        have c: "cmp xp xp = 0" "cmp xp xU \<noteq> 0"
          using ok d unfolding e1 e2 e4 by (auto simp: cmp_ok_eq distinct_elems_plug)
        show ?thesis unfolding e1 e2 e4 tree_in_plug
          by (simp add: rotateLeft_def rotateRight_def rotateLeft2_def rotateRight2_def relink_def getParent_def cell_ops Let_def T addr_sym Int_commute Int_Un_distrib Int_Un_distrib2 Un_empty c)
      qed
    qed
  next
    case (Nd Sl aS cS xS Sr)
    note e5 = Nd
    show ?thesis
    proof (cases U)
      case Lf
      note e6 = Lf
      show ?thesis
      proof -
        note T = t[unfolded e1 e5 e6 tree_in_plug, simplified, simplified addr_sym Int_commute Int_Un_distrib Int_Un_distrib2 Un_empty]
        have c: "cmp xp xp = 0"
          using ok d unfolding e1 e5 e6 by (auto simp: cmp_ok_eq distinct_elems_plug)
        show ?thesis unfolding e1 e5 e6 tree_in_plug
          by (simp add: rotateLeft_def rotateRight_def rotateLeft2_def rotateRight2_def relink_def getParent_def cell_ops Let_def T addr_sym Int_commute Int_Un_distrib Int_Un_distrib2 Un_empty c)
      qed
    next
      case (Nd Ul aU cU xU Ur)
      note e7 = Nd
      show ?thesis
      proof -
        note T = t[unfolded e1 e5 e7 tree_in_plug, simplified, simplified addr_sym Int_commute Int_Un_distrib Int_Un_distrib2 Un_empty]
        have c: "cmp xp xp = 0" "cmp xp xU \<noteq> 0"
          using ok d unfolding e1 e5 e7 by (auto simp: cmp_ok_eq distinct_elems_plug)
        show ?thesis unfolding e1 e5 e7 tree_in_plug
          by (simp add: rotateLeft_def rotateRight_def rotateLeft2_def rotateRight2_def relink_def getParent_def cell_ops Let_def T addr_sym Int_commute Int_Un_distrib Int_Un_distrib2 Un_empty c)
      qed
    qed
  qed
next
  case (Cons ffs fs')
  note e8 = Cons
  show ?thesis
  proof (cases ffs)
    case (LeftOf gfs cgfs xgfs Rfs)
    note e9 = LeftOf
    show ?thesis
    proof (cases S)
      case Lf
      note e10 = Lf
      show ?thesis
      proof (cases U)
        case Lf
        note e11 = Lf
        show ?thesis
        proof -
          note T = t[unfolded e8 e9 e10 e11 tree_in_plug, simplified, simplified addr_sym Int_commute Int_Un_distrib Int_Un_distrib2 Un_empty]
          have c: "cmp xg xg = 0" "cmp xp xp = 0"
            using ok d unfolding e8 e9 e10 e11 by (auto simp: cmp_ok_eq distinct_elems_plug)
          show ?thesis unfolding e8 e9 e10 e11 tree_in_plug
            by (simp add: rotateLeft_def rotateRight_def rotateLeft2_def rotateRight2_def relink_def getParent_def cell_ops Let_def T addr_sym Int_commute Int_Un_distrib Int_Un_distrib2 Un_empty c)
        qed
      next
        case (Nd Ul aU cU xU Ur)
        note e12 = Nd
        show ?thesis
        proof -
          note T = t[unfolded e8 e9 e10 e12 tree_in_plug, simplified, simplified addr_sym Int_commute Int_Un_distrib Int_Un_distrib2 Un_empty]
          have c: "cmp xg xg = 0" "cmp xp xp = 0" "cmp xp xU \<noteq> 0"
            using ok d unfolding e8 e9 e10 e12 by (auto simp: cmp_ok_eq distinct_elems_plug)
          show ?thesis unfolding e8 e9 e10 e12 tree_in_plug
            by (simp add: rotateLeft_def rotateRight_def rotateLeft2_def rotateRight2_def relink_def getParent_def cell_ops Let_def T addr_sym Int_commute Int_Un_distrib Int_Un_distrib2 Un_empty c)
        qed
      qed
    next
      case (Nd Sl aS cS xS Sr)
      note e13 = Nd
      show ?thesis
      proof (cases U)
        case Lf
        note e14 = Lf
        show ?thesis
        proof -
          note T = t[unfolded e8 e9 e13 e14 tree_in_plug, simplified, simplified addr_sym Int_commute Int_Un_distrib Int_Un_distrib2 Un_empty]
          have c: "cmp xg xg = 0" "cmp xp xp = 0"
            using ok d unfolding e8 e9 e13 e14 by (auto simp: cmp_ok_eq distinct_elems_plug)
          show ?thesis unfolding e8 e9 e13 e14 tree_in_plug
            by (simp add: rotateLeft_def rotateRight_def rotateLeft2_def rotateRight2_def relink_def getParent_def cell_ops Let_def T addr_sym Int_commute Int_Un_distrib Int_Un_distrib2 Un_empty c)
        qed
      next
        case (Nd Ul aU cU xU Ur)
        note e15 = Nd
        show ?thesis
        proof -
          note T = t[unfolded e8 e9 e13 e15 tree_in_plug, simplified, simplified addr_sym Int_commute Int_Un_distrib Int_Un_distrib2 Un_empty]
          have c: "cmp xg xg = 0" "cmp xp xp = 0" "cmp xp xU \<noteq> 0"
            using ok d unfolding e8 e9 e13 e15 by (auto simp: cmp_ok_eq distinct_elems_plug)
          show ?thesis unfolding e8 e9 e13 e15 tree_in_plug
            by (simp add: rotateLeft_def rotateRight_def rotateLeft2_def rotateRight2_def relink_def getParent_def cell_ops Let_def T addr_sym Int_commute Int_Un_distrib Int_Un_distrib2 Un_empty c)
        qed
      qed
    qed
  next
    case (RightOf Lfs gfs cgfs xgfs)
    note e16 = RightOf
    obtain Lfsl aLfs cLfs xLfs Lfsr where e17: "Lfs = Nd Lfsl aLfs cLfs xLfs Lfsr"
      using lk e8 e16 by (cases Lfs) (auto simp: left_ok_def)
    show ?thesis
    proof (cases S)
      case Lf
      note e18 = Lf
      show ?thesis
      proof (cases U)
        case Lf
        note e19 = Lf
        show ?thesis
        proof -
          note T = t[unfolded e8 e16 e17 e18 e19 tree_in_plug, simplified, simplified addr_sym Int_commute Int_Un_distrib Int_Un_distrib2 Un_empty]
          have c: "cmp xg xLfs \<noteq> 0" "cmp xLfs xg \<noteq> 0" "cmp xp xp = 0"
            using ok d unfolding e8 e16 e17 e18 e19 by (auto simp: cmp_ok_eq distinct_elems_plug)
          show ?thesis unfolding e8 e16 e17 e18 e19 tree_in_plug
            by (simp add: rotateLeft_def rotateRight_def rotateLeft2_def rotateRight2_def relink_def getParent_def cell_ops Let_def T addr_sym Int_commute Int_Un_distrib Int_Un_distrib2 Un_empty c)
        qed
      next
        case (Nd Ul aU cU xU Ur)
        note e20 = Nd
        show ?thesis
        proof -
          note T = t[unfolded e8 e16 e17 e18 e20 tree_in_plug, simplified, simplified addr_sym Int_commute Int_Un_distrib Int_Un_distrib2 Un_empty]
          have c: "cmp xg xLfs \<noteq> 0" "cmp xLfs xg \<noteq> 0" "cmp xp xp = 0" "cmp xp xU \<noteq> 0"
            using ok d unfolding e8 e16 e17 e18 e20 by (auto simp: cmp_ok_eq distinct_elems_plug)
          show ?thesis unfolding e8 e16 e17 e18 e20 tree_in_plug
            by (simp add: rotateLeft_def rotateRight_def rotateLeft2_def rotateRight2_def relink_def getParent_def cell_ops Let_def T addr_sym Int_commute Int_Un_distrib Int_Un_distrib2 Un_empty c)
        qed
      qed
    next
      case (Nd Sl aS cS xS Sr)
      note e21 = Nd
      show ?thesis
      proof (cases U)
        case Lf
        note e22 = Lf
        show ?thesis
        proof -
          note T = t[unfolded e8 e16 e17 e21 e22 tree_in_plug, simplified, simplified addr_sym Int_commute Int_Un_distrib Int_Un_distrib2 Un_empty]
          have c: "cmp xg xLfs \<noteq> 0" "cmp xLfs xg \<noteq> 0" "cmp xp xp = 0"
            using ok d unfolding e8 e16 e17 e21 e22 by (auto simp: cmp_ok_eq distinct_elems_plug)
          show ?thesis unfolding e8 e16 e17 e21 e22 tree_in_plug
            by (simp add: rotateLeft_def rotateRight_def rotateLeft2_def rotateRight2_def relink_def getParent_def cell_ops Let_def T addr_sym Int_commute Int_Un_distrib Int_Un_distrib2 Un_empty c)
        qed
      next
        case (Nd Ul aU cU xU Ur)
        note e23 = Nd
        show ?thesis
        proof -
          note T = t[unfolded e8 e16 e17 e21 e23 tree_in_plug, simplified, simplified addr_sym Int_commute Int_Un_distrib Int_Un_distrib2 Un_empty]
          have c: "cmp xg xLfs \<noteq> 0" "cmp xLfs xg \<noteq> 0" "cmp xp xp = 0" "cmp xp xU \<noteq> 0"
            using ok d unfolding e8 e16 e17 e21 e23 by (auto simp: cmp_ok_eq distinct_elems_plug)
          show ?thesis unfolding e8 e16 e17 e21 e23 tree_in_plug
            by (simp add: rotateLeft_def rotateRight_def rotateLeft2_def rotateRight2_def relink_def getParent_def cell_ops Let_def T addr_sym Int_commute Int_Un_distrib Int_Un_distrib2 Un_empty c)
        qed
      qed
    qed
  qed
qed

lemma rotateLeft_inner:
  assumes ok: "cmp_ok cmp"
    and t: "tree_in s (plug fs (Nd (Nd S p cp xp (Nd nl n cn xn nr)) g cg xg U))"
    and d: "distinct (elems (plug fs (Nd (Nd S p cp xp (Nd nl n cn xn nr)) g cg xg U)))"
    and lk: "left_ok fs"
  shows "\<exists>s'. rotateLeft cmp s (Some n) = Inr s' \<and> tree_in s' (plug fs (Nd (Nd S p cp xp nl) n BLACK xn (Nd nr g RED xg U)))"
proof (cases fs)
  case Nil
  note e1 = Nil
  show ?thesis
  proof (cases nl)
    case Lf
    note e2 = Lf
    show ?thesis
    proof (cases nr)
      case Lf
      note e3 = Lf
      show ?thesis
      proof -
        note T = t[unfolded e1 e2 e3 tree_in_plug, simplified, simplified addr_sym Int_commute Int_Un_distrib Int_Un_distrib2 Un_empty]
        have c: "cmp xp xp = 0"
          using ok d unfolding e1 e2 e3 by (auto simp: cmp_ok_eq distinct_elems_plug)
        show ?thesis unfolding e1 e2 e3 tree_in_plug
          by (simp add: rotateLeft_def rotateRight_def rotateLeft2_def rotateRight2_def relink_def getParent_def cell_ops Let_def T addr_sym Int_commute Int_Un_distrib Int_Un_distrib2 Un_empty c)
      qed
    next
      case (Nd nrl anr cnr xnr nrr)
      note e4 = Nd
      show ?thesis
      proof -
        note T = t[unfolded e1 e2 e4 tree_in_plug, simplified, simplified addr_sym Int_commute Int_Un_distrib Int_Un_distrib2 Un_empty]
        have c: "cmp xp xp = 0"
          using ok d unfolding e1 e2 e4 by (auto simp: cmp_ok_eq distinct_elems_plug)
        show ?thesis unfolding e1 e2 e4 tree_in_plug
          by (simp add: rotateLeft_def rotateRight_def rotateLeft2_def rotateRight2_def relink_def getParent_def cell_ops Let_def T addr_sym Int_commute Int_Un_distrib Int_Un_distrib2 Un_empty c)
      qed
    qed
  next
    case (Nd nll anl cnl xnl nlr)
    note e5 = Nd
    show ?thesis
    proof (cases nr)
      case Lf
      note e6 = Lf
      show ?thesis
      proof -
        note T = t[unfolded e1 e5 e6 tree_in_plug, simplified, simplified addr_sym Int_commute Int_Un_distrib Int_Un_distrib2 Un_empty]
        have c: "cmp xp xp = 0"
          using ok d unfolding e1 e5 e6 by (auto simp: cmp_ok_eq distinct_elems_plug)
        show ?thesis unfolding e1 e5 e6 tree_in_plug
          by (simp add: rotateLeft_def rotateRight_def rotateLeft2_def rotateRight2_def relink_def getParent_def cell_ops Let_def T addr_sym Int_commute Int_Un_distrib Int_Un_distrib2 Un_empty c)
      qed
    next
      case (Nd nrl anr cnr xnr nrr)
      note e7 = Nd
      show ?thesis
      proof -
        note T = t[unfolded e1 e5 e7 tree_in_plug, simplified, simplified addr_sym Int_commute Int_Un_distrib Int_Un_distrib2 Un_empty]
        have c: "cmp xp xp = 0"
          using ok d unfolding e1 e5 e7 by (auto simp: cmp_ok_eq distinct_elems_plug)
        show ?thesis unfolding e1 e5 e7 tree_in_plug
          by (simp add: rotateLeft_def rotateRight_def rotateLeft2_def rotateRight2_def relink_def getParent_def cell_ops Let_def T addr_sym Int_commute Int_Un_distrib Int_Un_distrib2 Un_empty c)
      qed
    qed
  qed
next
  case (Cons ffs fs')
  note e8 = Cons
  show ?thesis
  proof (cases ffs)
    case (LeftOf gfs cgfs xgfs Rfs)
    note e9 = LeftOf
    show ?thesis
    proof (cases nl)
      case Lf
      note e10 = Lf
      show ?thesis
      proof (cases nr)
        case Lf
        note e11 = Lf
        show ?thesis
        proof -
          note T = t[unfolded e8 e9 e10 e11 tree_in_plug, simplified, simplified addr_sym Int_commute Int_Un_distrib Int_Un_distrib2 Un_empty]
          have c: "cmp xg xg = 0" "cmp xp xp = 0"
            using ok d unfolding e8 e9 e10 e11 by (auto simp: cmp_ok_eq distinct_elems_plug)
          show ?thesis unfolding e8 e9 e10 e11 tree_in_plug
            by (simp add: rotateLeft_def rotateRight_def rotateLeft2_def rotateRight2_def relink_def getParent_def cell_ops Let_def T addr_sym Int_commute Int_Un_distrib Int_Un_distrib2 Un_empty c)
        qed
      next
        case (Nd nrl anr cnr xnr nrr)
        note e12 = Nd
        show ?thesis
        proof -
          note T = t[unfolded e8 e9 e10 e12 tree_in_plug, simplified, simplified addr_sym Int_commute Int_Un_distrib Int_Un_distrib2 Un_empty]
          have c: "cmp xg xg = 0" "cmp xp xp = 0"
            using ok d unfolding e8 e9 e10 e12 by (auto simp: cmp_ok_eq distinct_elems_plug)
          show ?thesis unfolding e8 e9 e10 e12 tree_in_plug
            by (simp add: rotateLeft_def rotateRight_def rotateLeft2_def rotateRight2_def relink_def getParent_def cell_ops Let_def T addr_sym Int_commute Int_Un_distrib Int_Un_distrib2 Un_empty c)
        qed
      qed
    next
      case (Nd nll anl cnl xnl nlr)
      note e13 = Nd
      show ?thesis
      proof (cases nr)
        case Lf
        note e14 = Lf
        show ?thesis
        proof -
          note T = t[unfolded e8 e9 e13 e14 tree_in_plug, simplified, simplified addr_sym Int_commute Int_Un_distrib Int_Un_distrib2 Un_empty]
          have c: "cmp xg xg = 0" "cmp xp xp = 0"
            using ok d unfolding e8 e9 e13 e14 by (auto simp: cmp_ok_eq distinct_elems_plug)
          show ?thesis unfolding e8 e9 e13 e14 tree_in_plug
            by (simp add: rotateLeft_def rotateRight_def rotateLeft2_def rotateRight2_def relink_def getParent_def cell_ops Let_def T addr_sym Int_commute Int_Un_distrib Int_Un_distrib2 Un_empty c)
        qed
      next
        case (Nd nrl anr cnr xnr nrr)
        note e15 = Nd
        show ?thesis
        proof -
          note T = t[unfolded e8 e9 e13 e15 tree_in_plug, simplified, simplified addr_sym Int_commute Int_Un_distrib Int_Un_distrib2 Un_empty]
          have c: "cmp xg xg = 0" "cmp xp xp = 0"
            using ok d unfolding e8 e9 e13 e15 by (auto simp: cmp_ok_eq distinct_elems_plug)
          show ?thesis unfolding e8 e9 e13 e15 tree_in_plug
            by (simp add: rotateLeft_def rotateRight_def rotateLeft2_def rotateRight2_def relink_def getParent_def cell_ops Let_def T addr_sym Int_commute Int_Un_distrib Int_Un_distrib2 Un_empty c)
        qed
      qed
    qed
  next
    case (RightOf Lfs gfs cgfs xgfs)
    note e16 = RightOf
    obtain Lfsl aLfs cLfs xLfs Lfsr where e17: "Lfs = Nd Lfsl aLfs cLfs xLfs Lfsr"
      using lk e8 e16 by (cases Lfs) (auto simp: left_ok_def)
    show ?thesis
    proof (cases nl)
      case Lf
      note e18 = Lf
      show ?thesis
      proof (cases nr)
        case Lf
        note e19 = Lf
        show ?thesis
        proof -
          note T = t[unfolded e8 e16 e17 e18 e19 tree_in_plug, simplified, simplified addr_sym Int_commute Int_Un_distrib Int_Un_distrib2 Un_empty]
          have c: "cmp xg xLfs \<noteq> 0" "cmp xLfs xg \<noteq> 0" "cmp xp xp = 0"
            using ok d unfolding e8 e16 e17 e18 e19 by (auto simp: cmp_ok_eq distinct_elems_plug)
          show ?thesis unfolding e8 e16 e17 e18 e19 tree_in_plug
            by (simp add: rotateLeft_def rotateRight_def rotateLeft2_def rotateRight2_def relink_def getParent_def cell_ops Let_def T addr_sym Int_commute Int_Un_distrib Int_Un_distrib2 Un_empty c)
        qed
      next
        case (Nd nrl anr cnr xnr nrr)
        note e20 = Nd
        show ?thesis
        proof -
          note T = t[unfolded e8 e16 e17 e18 e20 tree_in_plug, simplified, simplified addr_sym Int_commute Int_Un_distrib Int_Un_distrib2 Un_empty]
          have c: "cmp xg xLfs \<noteq> 0" "cmp xLfs xg \<noteq> 0" "cmp xp xp = 0"
            using ok d unfolding e8 e16 e17 e18 e20 by (auto simp: cmp_ok_eq distinct_elems_plug)
          show ?thesis unfolding e8 e16 e17 e18 e20 tree_in_plug
            by (simp add: rotateLeft_def rotateRight_def rotateLeft2_def rotateRight2_def relink_def getParent_def cell_ops Let_def T addr_sym Int_commute Int_Un_distrib Int_Un_distrib2 Un_empty c)
        qed
      qed
    next
      case (Nd nll anl cnl xnl nlr)
      note e21 = Nd
      show ?thesis
      proof (cases nr)
        case Lf
        note e22 = Lf
        show ?thesis
        proof -
          note T = t[unfolded e8 e16 e17 e21 e22 tree_in_plug, simplified, simplified addr_sym Int_commute Int_Un_distrib Int_Un_distrib2 Un_empty]
          have c: "cmp xg xLfs \<noteq> 0" "cmp xLfs xg \<noteq> 0" "cmp xp xp = 0"
            using ok d unfolding e8 e16 e17 e21 e22 by (auto simp: cmp_ok_eq distinct_elems_plug)
          show ?thesis unfolding e8 e16 e17 e21 e22 tree_in_plug
            by (simp add: rotateLeft_def rotateRight_def rotateLeft2_def rotateRight2_def relink_def getParent_def cell_ops Let_def T addr_sym Int_commute Int_Un_distrib Int_Un_distrib2 Un_empty c)
        qed
      next
        case (Nd nrl anr cnr xnr nrr)
        note e23 = Nd
        show ?thesis
        proof -
          note T = t[unfolded e8 e16 e17 e21 e23 tree_in_plug, simplified, simplified addr_sym Int_commute Int_Un_distrib Int_Un_distrib2 Un_empty]
          have c: "cmp xg xLfs \<noteq> 0" "cmp xLfs xg \<noteq> 0" "cmp xp xp = 0"
            using ok d unfolding e8 e16 e17 e21 e23 by (auto simp: cmp_ok_eq distinct_elems_plug)
          show ?thesis unfolding e8 e16 e17 e21 e23 tree_in_plug
            by (simp add: rotateLeft_def rotateRight_def rotateLeft2_def rotateRight2_def relink_def getParent_def cell_ops Let_def T addr_sym Int_commute Int_Un_distrib Int_Un_distrib2 Un_empty c)
        qed
      qed
    qed
  qed
qed

section \<open>The cases of fixTreeInsert\<close>

lemma fix_root:
  assumes ok: "cmp_ok cmp"
    and t: "tree_in s (plug [] (Nd nl n cn xn nr))"
  shows "\<exists>s'. fixTreeInsert (Suc k) cmp s (Some n) = Inr s' \<and> tree_in s' (plug [] (Nd nl n BLACK xn nr))"
proof -
  note T = t[unfolded tree_in_plug, simplified, simplified addr_sym Int_commute Int_Un_distrib Int_Un_distrib2 Un_empty]
  have c: "cmp xn xn = 0" using ok by (simp add: cmp_ok_eq)
  show ?thesis unfolding tree_in_plug
    by (simp add: getUncle_def getParent_def cell_ops Let_def T addr_sym Int_commute Int_Un_distrib Int_Un_distrib2 Un_empty c)
qed

lemma fix_black_root_L:
  assumes ok: "cmp_ok cmp"
    and t: "tree_in s (plug ([LeftOf p BLACK xp S]) (Nd nl n RED xn nr))"
    and d: "distinct (elems (plug ([LeftOf p BLACK xp S]) (Nd nl n RED xn nr)))"
  shows "fixTreeInsert (Suc k) cmp s (Some n) = Inr s"
proof -
  note T = t[unfolded tree_in_plug, simplified, simplified addr_sym Int_commute Int_Un_distrib Int_Un_distrib2 Un_empty]
  have c: "cmp xp xn \<noteq> 0"
    using ok d by (auto simp: cmp_ok_eq distinct_elems_plug)
  show ?thesis unfolding tree_in_plug
    by (simp add: getUncle_def getParent_def cell_ops Let_def T addr_sym Int_commute Int_Un_distrib Int_Un_distrib2 Un_empty c)
qed

lemma fix_black_root_R:
  assumes ok: "cmp_ok cmp"
    and t: "tree_in s (plug ([RightOf S p BLACK xp]) (Nd nl n RED xn nr))"
    and d: "distinct (elems (plug ([RightOf S p BLACK xp]) (Nd nl n RED xn nr)))"
  shows "fixTreeInsert (Suc k) cmp s (Some n) = Inr s"
proof -
  note T = t[unfolded tree_in_plug, simplified, simplified addr_sym Int_commute Int_Un_distrib Int_Un_distrib2 Un_empty]
  have c: "cmp xp xn \<noteq> 0"
    using ok d by (auto simp: cmp_ok_eq distinct_elems_plug)
  show ?thesis unfolding tree_in_plug
    by (simp add: getUncle_def getParent_def cell_ops Let_def T addr_sym Int_commute Int_Un_distrib Int_Un_distrib2 Un_empty c)
qed

lemma fix_black_LL_lf:
  assumes ok: "cmp_ok cmp"
    and t: "tree_in s (plug (LeftOf p BLACK xp S # LeftOf g cg xg (Lf) # rest) (Nd nl n RED xn nr))"
    and d: "distinct (elems (plug (LeftOf p BLACK xp S # LeftOf g cg xg (Lf) # rest) (Nd nl n RED xn nr)))"
    and rt: "nd s (zroot rest (Some g)) = Inr Rt" "cmp (data Rt) xn \<noteq> 0"
  shows "fixTreeInsert (Suc k) cmp s (Some n) = Inr s"
proof -
  note T = t[unfolded tree_in_plug, simplified, simplified addr_sym Int_commute Int_Un_distrib Int_Un_distrib2 Un_empty]
  have c: "cmp xp xp = 0"
    using ok d by (auto simp: cmp_ok_eq distinct_elems_plug)
  show ?thesis unfolding tree_in_plug
    by (simp add: getUncle_def getParent_def cell_ops Let_def T addr_sym Int_commute Int_Un_distrib Int_Un_distrib2 Un_empty c rt)
qed

lemma fix_black_LL_nd:
  assumes ok: "cmp_ok cmp"
    and t: "tree_in s (plug (LeftOf p BLACK xp S # LeftOf g cg xg (Nd ul u cu xu ur) # rest) (Nd nl n RED xn nr))"
    and d: "distinct (elems (plug (LeftOf p BLACK xp S # LeftOf g cg xg (Nd ul u cu xu ur) # rest) (Nd nl n RED xn nr)))"
    and rt: "nd s (zroot rest (Some g)) = Inr Rt" "cmp (data Rt) xn \<noteq> 0"
  shows "fixTreeInsert (Suc k) cmp s (Some n) = Inr s"
proof -
  note T = t[unfolded tree_in_plug, simplified, simplified addr_sym Int_commute Int_Un_distrib Int_Un_distrib2 Un_empty]
  have c: "cmp xp xp = 0" "cmp xu xp \<noteq> 0"
    using ok d by (auto simp: cmp_ok_eq distinct_elems_plug)
  show ?thesis unfolding tree_in_plug
    by (simp add: getUncle_def getParent_def cell_ops Let_def T addr_sym Int_commute Int_Un_distrib Int_Un_distrib2 Un_empty c rt)
qed

lemma fix_black_LR_lf:
  assumes ok: "cmp_ok cmp"
    and t: "tree_in s (plug (LeftOf p BLACK xp S # RightOf (Lf) g cg xg # rest) (Nd nl n RED xn nr))"
    and d: "distinct (elems (plug (LeftOf p BLACK xp S # RightOf (Lf) g cg xg # rest) (Nd nl n RED xn nr)))"
    and rt: "nd s (zroot rest (Some g)) = Inr Rt" "cmp (data Rt) xn \<noteq> 0"
  shows "fixTreeInsert (Suc k) cmp s (Some n) = Inr s"
proof -
  note T = t[unfolded tree_in_plug, simplified, simplified addr_sym Int_commute Int_Un_distrib Int_Un_distrib2 Un_empty]
  have c: "cmp xp xp = 0"
    using ok d by (auto simp: cmp_ok_eq distinct_elems_plug)
  show ?thesis unfolding tree_in_plug
    by (simp add: getUncle_def getParent_def cell_ops Let_def T addr_sym Int_commute Int_Un_distrib Int_Un_distrib2 Un_empty c rt)
qed

lemma fix_black_LR_nd:
  assumes ok: "cmp_ok cmp"
    and t: "tree_in s (plug (LeftOf p BLACK xp S # RightOf (Nd ul u cu xu ur) g cg xg # rest) (Nd nl n RED xn nr))"
    and d: "distinct (elems (plug (LeftOf p BLACK xp S # RightOf (Nd ul u cu xu ur) g cg xg # rest) (Nd nl n RED xn nr)))"
    and rt: "nd s (zroot rest (Some g)) = Inr Rt" "cmp (data Rt) xn \<noteq> 0"
  shows "fixTreeInsert (Suc k) cmp s (Some n) = Inr s"
proof -
  note T = t[unfolded tree_in_plug, simplified, simplified addr_sym Int_commute Int_Un_distrib Int_Un_distrib2 Un_empty]
  have c: "cmp xp xp = 0" "cmp xu xp \<noteq> 0"
    using ok d by (auto simp: cmp_ok_eq distinct_elems_plug)
  show ?thesis unfolding tree_in_plug
    by (simp add: getUncle_def getParent_def cell_ops Let_def T addr_sym Int_commute Int_Un_distrib Int_Un_distrib2 Un_empty c rt)
qed

lemma fix_black_RL_lf:
  assumes ok: "cmp_ok cmp"
    and t: "tree_in s (plug (RightOf S p BLACK xp # LeftOf g cg xg (Lf) # rest) (Nd nl n RED xn nr))"
    and d: "distinct (elems (plug (RightOf S p BLACK xp # LeftOf g cg xg (Lf) # rest) (Nd nl n RED xn nr)))"
    and rt: "nd s (zroot rest (Some g)) = Inr Rt" "cmp (data Rt) xn \<noteq> 0"
  shows "fixTreeInsert (Suc k) cmp s (Some n) = Inr s"
proof -
  note T = t[unfolded tree_in_plug, simplified, simplified addr_sym Int_commute Int_Un_distrib Int_Un_distrib2 Un_empty]
  have c: "cmp xp xp = 0"
    using ok d by (auto simp: cmp_ok_eq distinct_elems_plug)
  show ?thesis unfolding tree_in_plug
    by (simp add: getUncle_def getParent_def cell_ops Let_def T addr_sym Int_commute Int_Un_distrib Int_Un_distrib2 Un_empty c rt)
qed

lemma fix_black_RL_nd:
  assumes ok: "cmp_ok cmp"
    and t: "tree_in s (plug (RightOf S p BLACK xp # LeftOf g cg xg (Nd ul u cu xu ur) # rest) (Nd nl n RED xn nr))"
    and d: "distinct (elems (plug (RightOf S p BLACK xp # LeftOf g cg xg (Nd ul u cu xu ur) # rest) (Nd nl n RED xn nr)))"
    and rt: "nd s (zroot rest (Some g)) = Inr Rt" "cmp (data Rt) xn \<noteq> 0"
  shows "fixTreeInsert (Suc k) cmp s (Some n) = Inr s"
proof -
  note T = t[unfolded tree_in_plug, simplified, simplified addr_sym Int_commute Int_Un_distrib Int_Un_distrib2 Un_empty]
  have c: "cmp xp xp = 0" "cmp xu xp \<noteq> 0"
    using ok d by (auto simp: cmp_ok_eq distinct_elems_plug)
  show ?thesis unfolding tree_in_plug
    by (simp add: getUncle_def getParent_def cell_ops Let_def T addr_sym Int_commute Int_Un_distrib Int_Un_distrib2 Un_empty c rt)
qed

lemma fix_black_RR_lf:
  assumes ok: "cmp_ok cmp"
    and t: "tree_in s (plug (RightOf S p BLACK xp # RightOf (Lf) g cg xg # rest) (Nd nl n RED xn nr))"
    and d: "distinct (elems (plug (RightOf S p BLACK xp # RightOf (Lf) g cg xg # rest) (Nd nl n RED xn nr)))"
    and rt: "nd s (zroot rest (Some g)) = Inr Rt" "cmp (data Rt) xn \<noteq> 0"
  shows "fixTreeInsert (Suc k) cmp s (Some n) = Inr s"
proof -
  note T = t[unfolded tree_in_plug, simplified, simplified addr_sym Int_commute Int_Un_distrib Int_Un_distrib2 Un_empty]
  have c: "cmp xp xp = 0"
    using ok d by (auto simp: cmp_ok_eq distinct_elems_plug)
  show ?thesis unfolding tree_in_plug
    by (simp add: getUncle_def getParent_def cell_ops Let_def T addr_sym Int_commute Int_Un_distrib Int_Un_distrib2 Un_empty c rt)
qed

lemma fix_black_RR_nd:
  assumes ok: "cmp_ok cmp"
    and t: "tree_in s (plug (RightOf S p BLACK xp # RightOf (Nd ul u cu xu ur) g cg xg # rest) (Nd nl n RED xn nr))"
    and d: "distinct (elems (plug (RightOf S p BLACK xp # RightOf (Nd ul u cu xu ur) g cg xg # rest) (Nd nl n RED xn nr)))"
    and rt: "nd s (zroot rest (Some g)) = Inr Rt" "cmp (data Rt) xn \<noteq> 0"
  shows "fixTreeInsert (Suc k) cmp s (Some n) = Inr s"
proof -
  note T = t[unfolded tree_in_plug, simplified, simplified addr_sym Int_commute Int_Un_distrib Int_Un_distrib2 Un_empty]
  have c: "cmp xp xp = 0" "cmp xu xp \<noteq> 0"
    using ok d by (auto simp: cmp_ok_eq distinct_elems_plug)
  show ?thesis unfolding tree_in_plug
    by (simp add: getUncle_def getParent_def cell_ops Let_def T addr_sym Int_commute Int_Un_distrib Int_Un_distrib2 Un_empty c rt)
qed

lemma fix_red_uncle_LL:
  assumes ok: "cmp_ok cmp"
    and t: "tree_in s (plug (LeftOf p RED xp S # LeftOf g cg xg (Nd ul u RED xu ur) # rest) (Nd nl n RED xn nr))"
    and d: "distinct (elems (plug (LeftOf p RED xp S # LeftOf g cg xg (Nd ul u RED xu ur) # rest) (Nd nl n RED xn nr)))"
    and rt: "nd s (zroot rest (Some g)) = Inr Rt" "cmp (data Rt) xn \<noteq> 0"
  shows "\<exists>s3. bnd (set_color (Some p) BLACK s) (\<lambda>s. bnd (set_color (Some u) BLACK s) (\<lambda>s. set_color (Some g) RED s)) = Inr s3 \<and> tree_in s3 (plug rest (Nd (Nd (Nd nl n RED xn nr) p BLACK xp S) g RED xg (Nd ul u BLACK xu ur))) \<and> fixTreeInsert (Suc k) cmp s (Some n) = fixTreeInsert k cmp s3 (Some g)"
proof -
  note T = t[unfolded tree_in_plug, simplified, simplified addr_sym Int_commute Int_Un_distrib Int_Un_distrib2 Un_empty]
  have c: "cmp xp xp = 0" "cmp xu xp \<noteq> 0"
    using ok d by (auto simp: cmp_ok_eq distinct_elems_plug)
  show ?thesis unfolding tree_in_plug
    by (simp add: getUncle_def getParent_def cell_ops Let_def T addr_sym Int_commute Int_Un_distrib Int_Un_distrib2 Un_empty c rt)
qed

lemma fix_red_uncle_LR:
  assumes ok: "cmp_ok cmp"
    and t: "tree_in s (plug (LeftOf p RED xp S # RightOf (Nd ul u RED xu ur) g cg xg # rest) (Nd nl n RED xn nr))"
    and d: "distinct (elems (plug (LeftOf p RED xp S # RightOf (Nd ul u RED xu ur) g cg xg # rest) (Nd nl n RED xn nr)))"
    and rt: "nd s (zroot rest (Some g)) = Inr Rt" "cmp (data Rt) xn \<noteq> 0"
  shows "\<exists>s3. bnd (set_color (Some p) BLACK s) (\<lambda>s. bnd (set_color (Some u) BLACK s) (\<lambda>s. set_color (Some g) RED s)) = Inr s3 \<and> tree_in s3 (plug rest (Nd (Nd ul u BLACK xu ur) g RED xg (Nd (Nd nl n RED xn nr) p BLACK xp S))) \<and> fixTreeInsert (Suc k) cmp s (Some n) = fixTreeInsert k cmp s3 (Some g)"
proof -
  note T = t[unfolded tree_in_plug, simplified, simplified addr_sym Int_commute Int_Un_distrib Int_Un_distrib2 Un_empty]
  have c: "cmp xp xp = 0" "cmp xu xp \<noteq> 0"
    using ok d by (auto simp: cmp_ok_eq distinct_elems_plug)
  show ?thesis unfolding tree_in_plug
    by (simp add: getUncle_def getParent_def cell_ops Let_def T addr_sym Int_commute Int_Un_distrib Int_Un_distrib2 Un_empty c rt)
qed

lemma fix_red_uncle_RL:
  assumes ok: "cmp_ok cmp"
    and t: "tree_in s (plug (RightOf S p RED xp # LeftOf g cg xg (Nd ul u RED xu ur) # rest) (Nd nl n RED xn nr))"
    and d: "distinct (elems (plug (RightOf S p RED xp # LeftOf g cg xg (Nd ul u RED xu ur) # rest) (Nd nl n RED xn nr)))"
    and rt: "nd s (zroot rest (Some g)) = Inr Rt" "cmp (data Rt) xn \<noteq> 0"
  shows "\<exists>s3. bnd (set_color (Some p) BLACK s) (\<lambda>s. bnd (set_color (Some u) BLACK s) (\<lambda>s. set_color (Some g) RED s)) = Inr s3 \<and> tree_in s3 (plug rest (Nd (Nd S p BLACK xp (Nd nl n RED xn nr)) g RED xg (Nd ul u BLACK xu ur))) \<and> fixTreeInsert (Suc k) cmp s (Some n) = fixTreeInsert k cmp s3 (Some g)"
proof -
  note T = t[unfolded tree_in_plug, simplified, simplified addr_sym Int_commute Int_Un_distrib Int_Un_distrib2 Un_empty]
  have c: "cmp xp xp = 0" "cmp xu xp \<noteq> 0"
    using ok d by (auto simp: cmp_ok_eq distinct_elems_plug)
  show ?thesis unfolding tree_in_plug
    by (simp add: getUncle_def getParent_def cell_ops Let_def T addr_sym Int_commute Int_Un_distrib Int_Un_distrib2 Un_empty c rt)
qed

lemma fix_red_uncle_RR:
  assumes ok: "cmp_ok cmp"
    and t: "tree_in s (plug (RightOf S p RED xp # RightOf (Nd ul u RED xu ur) g cg xg # rest) (Nd nl n RED xn nr))"
    and d: "distinct (elems (plug (RightOf S p RED xp # RightOf (Nd ul u RED xu ur) g cg xg # rest) (Nd nl n RED xn nr)))"
    and rt: "nd s (zroot rest (Some g)) = Inr Rt" "cmp (data Rt) xn \<noteq> 0"
  shows "\<exists>s3. bnd (set_color (Some p) BLACK s) (\<lambda>s. bnd (set_color (Some u) BLACK s) (\<lambda>s. set_color (Some g) RED s)) = Inr s3 \<and> tree_in s3 (plug rest (Nd (Nd ul u BLACK xu ur) g RED xg (Nd S p BLACK xp (Nd nl n RED xn nr)))) \<and> fixTreeInsert (Suc k) cmp s (Some n) = fixTreeInsert k cmp s3 (Some g)"
proof -
  note T = t[unfolded tree_in_plug, simplified, simplified addr_sym Int_commute Int_Un_distrib Int_Un_distrib2 Un_empty]
  have c: "cmp xp xp = 0" "cmp xu xp \<noteq> 0"
    using ok d by (auto simp: cmp_ok_eq distinct_elems_plug)
  show ?thesis unfolding tree_in_plug
    by (simp add: getUncle_def getParent_def cell_ops Let_def T addr_sym Int_commute Int_Un_distrib Int_Un_distrib2 Un_empty c rt)
qed

lemma fix_rot_LL_lf:
  assumes ok: "cmp_ok cmp"
    and t: "tree_in s (plug (LeftOf p RED xp S # LeftOf g cg xg (Lf) # rest) (Nd nl n RED xn nr))"
    and d: "distinct (elems (plug (LeftOf p RED xp S # LeftOf g cg xg (Lf) # rest) (Nd nl n RED xn nr)))"
    and rt: "nd s (zroot rest (Some g)) = Inr Rt" "cmp (data Rt) xn \<noteq> 0"
  shows "fixTreeInsert (Suc k) cmp s (Some n) = rotateRight cmp s (Some n)"
proof -
  note T = t[unfolded tree_in_plug, simplified, simplified addr_sym Int_commute Int_Un_distrib Int_Un_distrib2 Un_empty]
  have c: "cmp xp xp = 0" "cmp xn xn = 0"
    using ok d by (auto simp: cmp_ok_eq distinct_elems_plug)
  show ?thesis unfolding tree_in_plug
    by (simp add: getUncle_def getParent_def cell_ops Let_def T addr_sym Int_commute Int_Un_distrib Int_Un_distrib2 Un_empty c rt)
qed

lemma fix_rot_LL_nd:
  assumes ok: "cmp_ok cmp"
    and t: "tree_in s (plug (LeftOf p RED xp S # LeftOf g cg xg (Nd ul u BLACK xu ur) # rest) (Nd nl n RED xn nr))"
    and d: "distinct (elems (plug (LeftOf p RED xp S # LeftOf g cg xg (Nd ul u BLACK xu ur) # rest) (Nd nl n RED xn nr)))"
    and rt: "nd s (zroot rest (Some g)) = Inr Rt" "cmp (data Rt) xn \<noteq> 0"
  shows "fixTreeInsert (Suc k) cmp s (Some n) = rotateRight cmp s (Some n)"
proof -
  note T = t[unfolded tree_in_plug, simplified, simplified addr_sym Int_commute Int_Un_distrib Int_Un_distrib2 Un_empty]
  have c: "cmp xp xp = 0" "cmp xn xn = 0" "cmp xu xp \<noteq> 0"
    using ok d by (auto simp: cmp_ok_eq distinct_elems_plug)
  show ?thesis unfolding tree_in_plug
    by (simp add: getUncle_def getParent_def cell_ops Let_def T addr_sym Int_commute Int_Un_distrib Int_Un_distrib2 Un_empty c rt)
qed

lemma fix_rot_LR_lf:
  assumes ok: "cmp_ok cmp"
    and t: "tree_in s (plug (LeftOf p RED xp S # RightOf (Lf) g cg xg # rest) (Nd nl n RED xn nr))"
    and d: "distinct (elems (plug (LeftOf p RED xp S # RightOf (Lf) g cg xg # rest) (Nd nl n RED xn nr)))"
    and rt: "nd s (zroot rest (Some g)) = Inr Rt" "cmp (data Rt) xn \<noteq> 0"
  shows "fixTreeInsert (Suc k) cmp s (Some n) = rotateRight cmp s (Some n)"
proof -
  note T = t[unfolded tree_in_plug, simplified, simplified addr_sym Int_commute Int_Un_distrib Int_Un_distrib2 Un_empty]
  have c: "cmp xp xp = 0" "cmp xn xn = 0"
    using ok d by (auto simp: cmp_ok_eq distinct_elems_plug)
  show ?thesis unfolding tree_in_plug
    by (simp add: getUncle_def getParent_def cell_ops Let_def T addr_sym Int_commute Int_Un_distrib Int_Un_distrib2 Un_empty c rt)
qed

lemma fix_rot_LR_nd:
  assumes ok: "cmp_ok cmp"
    and t: "tree_in s (plug (LeftOf p RED xp S # RightOf (Nd ul u BLACK xu ur) g cg xg # rest) (Nd nl n RED xn nr))"
    and d: "distinct (elems (plug (LeftOf p RED xp S # RightOf (Nd ul u BLACK xu ur) g cg xg # rest) (Nd nl n RED xn nr)))"
    and rt: "nd s (zroot rest (Some g)) = Inr Rt" "cmp (data Rt) xn \<noteq> 0"
  shows "fixTreeInsert (Suc k) cmp s (Some n) = rotateRight cmp s (Some n)"
proof -
  note T = t[unfolded tree_in_plug, simplified, simplified addr_sym Int_commute Int_Un_distrib Int_Un_distrib2 Un_empty]
  have c: "cmp xp xp = 0" "cmp xn xn = 0" "cmp xu xp \<noteq> 0"
    using ok d by (auto simp: cmp_ok_eq distinct_elems_plug)
  show ?thesis unfolding tree_in_plug
    by (simp add: getUncle_def getParent_def cell_ops Let_def T addr_sym Int_commute Int_Un_distrib Int_Un_distrib2 Un_empty c rt)
qed

lemma fix_rot_RL_lf_slf:
  assumes ok: "cmp_ok cmp"
    and t: "tree_in s (plug (RightOf (Lf) p RED xp # LeftOf g cg xg (Lf) # rest) (Nd nl n RED xn nr))"
    and d: "distinct (elems (plug (RightOf (Lf) p RED xp # LeftOf g cg xg (Lf) # rest) (Nd nl n RED xn nr)))"
    and rt: "nd s (zroot rest (Some g)) = Inr Rt" "cmp (data Rt) xn \<noteq> 0"
  shows "fixTreeInsert (Suc k) cmp s (Some n) = rotateLeft cmp s (Some n)"
proof -
  note T = t[unfolded tree_in_plug, simplified, simplified addr_sym Int_commute Int_Un_distrib Int_Un_distrib2 Un_empty]
  have c: "cmp xp xp = 0"
    using ok d by (auto simp: cmp_ok_eq distinct_elems_plug)
  show ?thesis unfolding tree_in_plug
    by (simp add: getUncle_def getParent_def cell_ops Let_def T addr_sym Int_commute Int_Un_distrib Int_Un_distrib2 Un_empty c rt)
qed

lemma fix_rot_RL_lf_snd:
  assumes ok: "cmp_ok cmp"
    and t: "tree_in s (plug (RightOf (Nd sl sa sc xs sr) p RED xp # LeftOf g cg xg (Lf) # rest) (Nd nl n RED xn nr))"
    and d: "distinct (elems (plug (RightOf (Nd sl sa sc xs sr) p RED xp # LeftOf g cg xg (Lf) # rest) (Nd nl n RED xn nr)))"
    and rt: "nd s (zroot rest (Some g)) = Inr Rt" "cmp (data Rt) xn \<noteq> 0"
  shows "fixTreeInsert (Suc k) cmp s (Some n) = rotateLeft cmp s (Some n)"
proof -
  note T = t[unfolded tree_in_plug, simplified, simplified addr_sym Int_commute Int_Un_distrib Int_Un_distrib2 Un_empty]
  have c: "cmp xp xp = 0" "cmp xn xs \<noteq> 0"
    using ok d by (auto simp: cmp_ok_eq distinct_elems_plug)
  show ?thesis unfolding tree_in_plug
    by (simp add: getUncle_def getParent_def cell_ops Let_def T addr_sym Int_commute Int_Un_distrib Int_Un_distrib2 Un_empty c rt)
qed

lemma fix_rot_RL_nd_slf:
  assumes ok: "cmp_ok cmp"
    and t: "tree_in s (plug (RightOf (Lf) p RED xp # LeftOf g cg xg (Nd ul u BLACK xu ur) # rest) (Nd nl n RED xn nr))"
    and d: "distinct (elems (plug (RightOf (Lf) p RED xp # LeftOf g cg xg (Nd ul u BLACK xu ur) # rest) (Nd nl n RED xn nr)))"
    and rt: "nd s (zroot rest (Some g)) = Inr Rt" "cmp (data Rt) xn \<noteq> 0"
  shows "fixTreeInsert (Suc k) cmp s (Some n) = rotateLeft cmp s (Some n)"
proof -
  note T = t[unfolded tree_in_plug, simplified, simplified addr_sym Int_commute Int_Un_distrib Int_Un_distrib2 Un_empty]
  have c: "cmp xp xp = 0" "cmp xu xp \<noteq> 0"
    using ok d by (auto simp: cmp_ok_eq distinct_elems_plug)
  show ?thesis unfolding tree_in_plug
    by (simp add: getUncle_def getParent_def cell_ops Let_def T addr_sym Int_commute Int_Un_distrib Int_Un_distrib2 Un_empty c rt)
qed

lemma fix_rot_RL_nd_snd:
  assumes ok: "cmp_ok cmp"
    and t: "tree_in s (plug (RightOf (Nd sl sa sc xs sr) p RED xp # LeftOf g cg xg (Nd ul u BLACK xu ur) # rest) (Nd nl n RED xn nr))"
    and d: "distinct (elems (plug (RightOf (Nd sl sa sc xs sr) p RED xp # LeftOf g cg xg (Nd ul u BLACK xu ur) # rest) (Nd nl n RED xn nr)))"
    and rt: "nd s (zroot rest (Some g)) = Inr Rt" "cmp (data Rt) xn \<noteq> 0"
  shows "fixTreeInsert (Suc k) cmp s (Some n) = rotateLeft cmp s (Some n)"
proof -
  note T = t[unfolded tree_in_plug, simplified, simplified addr_sym Int_commute Int_Un_distrib Int_Un_distrib2 Un_empty]
  have c: "cmp xp xp = 0" "cmp xu xp \<noteq> 0" "cmp xn xs \<noteq> 0"
    using ok d by (auto simp: cmp_ok_eq distinct_elems_plug)
  show ?thesis unfolding tree_in_plug
    by (simp add: getUncle_def getParent_def cell_ops Let_def T addr_sym Int_commute Int_Un_distrib Int_Un_distrib2 Un_empty c rt)
qed

lemma fix_rot_RR_lf_slf:
  assumes ok: "cmp_ok cmp"
    and t: "tree_in s (plug (RightOf (Lf) p RED xp # RightOf (Lf) g cg xg # rest) (Nd nl n RED xn nr))"
    and d: "distinct (elems (plug (RightOf (Lf) p RED xp # RightOf (Lf) g cg xg # rest) (Nd nl n RED xn nr)))"
    and rt: "nd s (zroot rest (Some g)) = Inr Rt" "cmp (data Rt) xn \<noteq> 0"
  shows "fixTreeInsert (Suc k) cmp s (Some n) = rotateLeft cmp s (Some n)"
proof -
  note T = t[unfolded tree_in_plug, simplified, simplified addr_sym Int_commute Int_Un_distrib Int_Un_distrib2 Un_empty]
  have c: "cmp xp xp = 0"
    using ok d by (auto simp: cmp_ok_eq distinct_elems_plug)
  show ?thesis unfolding tree_in_plug
    by (simp add: getUncle_def getParent_def cell_ops Let_def T addr_sym Int_commute Int_Un_distrib Int_Un_distrib2 Un_empty c rt)
qed

lemma fix_rot_RR_lf_snd:
  assumes ok: "cmp_ok cmp"
    and t: "tree_in s (plug (RightOf (Nd sl sa sc xs sr) p RED xp # RightOf (Lf) g cg xg # rest) (Nd nl n RED xn nr))"
    and d: "distinct (elems (plug (RightOf (Nd sl sa sc xs sr) p RED xp # RightOf (Lf) g cg xg # rest) (Nd nl n RED xn nr)))"
    and rt: "nd s (zroot rest (Some g)) = Inr Rt" "cmp (data Rt) xn \<noteq> 0"
  shows "fixTreeInsert (Suc k) cmp s (Some n) = rotateLeft cmp s (Some n)"
proof -
  note T = t[unfolded tree_in_plug, simplified, simplified addr_sym Int_commute Int_Un_distrib Int_Un_distrib2 Un_empty]
  have c: "cmp xp xp = 0" "cmp xn xs \<noteq> 0"
    using ok d by (auto simp: cmp_ok_eq distinct_elems_plug)
  show ?thesis unfolding tree_in_plug
    by (simp add: getUncle_def getParent_def cell_ops Let_def T addr_sym Int_commute Int_Un_distrib Int_Un_distrib2 Un_empty c rt)
qed

lemma fix_rot_RR_nd_slf:
  assumes ok: "cmp_ok cmp"
    and t: "tree_in s (plug (RightOf (Lf) p RED xp # RightOf (Nd ul u BLACK xu ur) g cg xg # rest) (Nd nl n RED xn nr))"
    and d: "distinct (elems (plug (RightOf (Lf) p RED xp # RightOf (Nd ul u BLACK xu ur) g cg xg # rest) (Nd nl n RED xn nr)))"
    and rt: "nd s (zroot rest (Some g)) = Inr Rt" "cmp (data Rt) xn \<noteq> 0"
  shows "fixTreeInsert (Suc k) cmp s (Some n) = rotateLeft cmp s (Some n)"
proof -
  note T = t[unfolded tree_in_plug, simplified, simplified addr_sym Int_commute Int_Un_distrib Int_Un_distrib2 Un_empty]
  have c: "cmp xp xp = 0" "cmp xu xp \<noteq> 0"
    using ok d by (auto simp: cmp_ok_eq distinct_elems_plug)
  show ?thesis unfolding tree_in_plug
    by (simp add: getUncle_def getParent_def cell_ops Let_def T addr_sym Int_commute Int_Un_distrib Int_Un_distrib2 Un_empty c rt)
qed

lemma fix_rot_RR_nd_snd:
  assumes ok: "cmp_ok cmp"
    and t: "tree_in s (plug (RightOf (Nd sl sa sc xs sr) p RED xp # RightOf (Nd ul u BLACK xu ur) g cg xg # rest) (Nd nl n RED xn nr))"
    and d: "distinct (elems (plug (RightOf (Nd sl sa sc xs sr) p RED xp # RightOf (Nd ul u BLACK xu ur) g cg xg # rest) (Nd nl n RED xn nr)))"
    and rt: "nd s (zroot rest (Some g)) = Inr Rt" "cmp (data Rt) xn \<noteq> 0"
  shows "fixTreeInsert (Suc k) cmp s (Some n) = rotateLeft cmp s (Some n)"
proof -
  note T = t[unfolded tree_in_plug, simplified, simplified addr_sym Int_commute Int_Un_distrib Int_Un_distrib2 Un_empty]
  have c: "cmp xp xp = 0" "cmp xu xp \<noteq> 0" "cmp xn xs \<noteq> 0"
    using ok d by (auto simp: cmp_ok_eq distinct_elems_plug)
  show ?thesis unfolding tree_in_plug
    by (simp add: getUncle_def getParent_def cell_ops Let_def T addr_sym Int_commute Int_Un_distrib Int_Un_distrib2 Un_empty c rt)
qed

section \<open>One step of fixTreeInsert\<close>

lemma fix_black_parent:
  assumes ok: "cmp_ok cmp"
    and t: "tree_in s (plug (f1 # f2 # rest) (Nd nl n RED xn nr))"
    and d: "distinct (elems (plug (f1 # f2 # rest) (Nd nl n RED xn nr)))"
    and rt: "nd s (zroot rest (Some (faddr f2))) = Inr Rt" "cmp (data Rt) xn \<noteq> 0"
    and bp: "fcol f1 = BLACK"
  shows "fixTreeInsert (Suc k) cmp s (Some n) = Inr s"
proof (cases f1)
  case (LeftOf p cp xp S)
  note e1 = LeftOf
  show ?thesis
  proof (cases f2)
    case (LeftOf g cg xg U)
    note e2 = LeftOf
    show ?thesis
    proof (cases U)
      case Lf
      note e3 = Lf
      show ?thesis
      proof -
        have cp: "cp = BLACK" using bp unfolding e1 e2 e3 by simp
        show ?thesis
          using fix_black_LL_lf[OF ok t[unfolded e1 e2 e3 cp] d[unfolded e1 e2 e3 cp] rt[unfolded e1 e2 e3, simplified]]
          unfolding e1 e2 e3 by simp
      qed
    next
      case (Nd ul u cu xu ur)
      note e3 = Nd
      show ?thesis
      proof -
        have cp: "cp = BLACK" using bp unfolding e1 e2 e3 by simp
        show ?thesis
          using fix_black_LL_nd[OF ok t[unfolded e1 e2 e3 cp] d[unfolded e1 e2 e3 cp] rt[unfolded e1 e2 e3, simplified]]
          unfolding e1 e2 e3 by simp
      qed
    qed
  next
    case (RightOf U g cg xg)
    note e2 = RightOf
    show ?thesis
    proof (cases U)
      case Lf
      note e3 = Lf
      show ?thesis
      proof -
        have cp: "cp = BLACK" using bp unfolding e1 e2 e3 by simp
        show ?thesis
          using fix_black_LR_lf[OF ok t[unfolded e1 e2 e3 cp] d[unfolded e1 e2 e3 cp] rt[unfolded e1 e2 e3, simplified]]
          unfolding e1 e2 e3 by simp
      qed
    next
      case (Nd ul u cu xu ur)
      note e3 = Nd
      show ?thesis
      proof -
        have cp: "cp = BLACK" using bp unfolding e1 e2 e3 by simp
        show ?thesis
          using fix_black_LR_nd[OF ok t[unfolded e1 e2 e3 cp] d[unfolded e1 e2 e3 cp] rt[unfolded e1 e2 e3, simplified]]
          unfolding e1 e2 e3 by simp
      qed
    qed
  qed
next
  case (RightOf S p cp xp)
  note e1 = RightOf
  show ?thesis
  proof (cases f2)
    case (LeftOf g cg xg U)
    note e2 = LeftOf
    show ?thesis
    proof (cases U)
      case Lf
      note e3 = Lf
      show ?thesis
      proof -
        have cp: "cp = BLACK" using bp unfolding e1 e2 e3 by simp
        show ?thesis
          using fix_black_RL_lf[OF ok t[unfolded e1 e2 e3 cp] d[unfolded e1 e2 e3 cp] rt[unfolded e1 e2 e3, simplified]]
          unfolding e1 e2 e3 by simp
      qed
    next
      case (Nd ul u cu xu ur)
      note e3 = Nd
      show ?thesis
      proof -
        have cp: "cp = BLACK" using bp unfolding e1 e2 e3 by simp
        show ?thesis
          using fix_black_RL_nd[OF ok t[unfolded e1 e2 e3 cp] d[unfolded e1 e2 e3 cp] rt[unfolded e1 e2 e3, simplified]]
          unfolding e1 e2 e3 by simp
      qed
    qed
  next
    case (RightOf U g cg xg)
    note e2 = RightOf
    show ?thesis
    proof (cases U)
      case Lf
      note e3 = Lf
      show ?thesis
      proof -
        have cp: "cp = BLACK" using bp unfolding e1 e2 e3 by simp
        show ?thesis
          using fix_black_RR_lf[OF ok t[unfolded e1 e2 e3 cp] d[unfolded e1 e2 e3 cp] rt[unfolded e1 e2 e3, simplified]]
          unfolding e1 e2 e3 by simp
      qed
    next
      case (Nd ul u cu xu ur)
      note e3 = Nd
      show ?thesis
      proof -
        have cp: "cp = BLACK" using bp unfolding e1 e2 e3 by simp
        show ?thesis
          using fix_black_RR_nd[OF ok t[unfolded e1 e2 e3 cp] d[unfolded e1 e2 e3 cp] rt[unfolded e1 e2 e3, simplified]]
          unfolding e1 e2 e3 by simp
      qed
    qed
  qed
qed

lemma fix_red_uncle:
  assumes ok: "cmp_ok cmp"
    and t: "tree_in s (plug (f1 # f2 # rest) (Nd nl n RED xn nr))"
    and d: "distinct (elems (plug (f1 # f2 # rest) (Nd nl n RED xn nr)))"
    and rt: "nd s (zroot rest (Some (faddr f2))) = Inr Rt" "cmp (data Rt) xn \<noteq> 0"
    and rp: "fcol f1 = RED"
    and un: "col (sib f2) = RED"
  shows "\<exists>s3. tree_in s3 (plug rest (plug1 (recolor_gp f2) (plug1 (fpaint BLACK f1) (Nd nl n RED xn nr))))
           \<and> fixTreeInsert (Suc k) cmp s (Some n) = fixTreeInsert k cmp s3 (Some (faddr f2))"
proof (cases f1)
  case (LeftOf p cp xp S)
  note e1 = LeftOf
  show ?thesis
  proof (cases f2)
    case (LeftOf g cg xg U)
    note e2 = LeftOf
    show ?thesis
    proof (cases U)
      case Lf
      note e3 = Lf
      show ?thesis using un unfolding e2 e3 by simp
    next
      case (Nd ul u cu xu ur)
      note e3 = Nd
      show ?thesis
      proof -
        have cp: "cp = RED" using rp unfolding e1 e2 e3 by simp
        have cu: "cu = RED" using un unfolding e1 e2 e3 by simp
        show ?thesis
          using fix_red_uncle_LL[OF ok t[unfolded e1 e2 e3 cp cu] d[unfolded e1 e2 e3 cp cu] rt[unfolded e1 e2 e3, simplified]]
          unfolding e1 e2 e3 cp cu by auto
      qed
    qed
  next
    case (RightOf U g cg xg)
    note e2 = RightOf
    show ?thesis
    proof (cases U)
      case Lf
      note e3 = Lf
      show ?thesis using un unfolding e2 e3 by simp
    next
      case (Nd ul u cu xu ur)
      note e3 = Nd
      show ?thesis
      proof -
        have cp: "cp = RED" using rp unfolding e1 e2 e3 by simp
        have cu: "cu = RED" using un unfolding e1 e2 e3 by simp
        show ?thesis
          using fix_red_uncle_LR[OF ok t[unfolded e1 e2 e3 cp cu] d[unfolded e1 e2 e3 cp cu] rt[unfolded e1 e2 e3, simplified]]
          unfolding e1 e2 e3 cp cu by auto
      qed
    qed
  qed
next
  case (RightOf S p cp xp)
  note e1 = RightOf
  show ?thesis
  proof (cases f2)
    case (LeftOf g cg xg U)
    note e2 = LeftOf
    show ?thesis
    proof (cases U)
      case Lf
      note e3 = Lf
      show ?thesis using un unfolding e2 e3 by simp
    next
      case (Nd ul u cu xu ur)
      note e3 = Nd
      show ?thesis
      proof -
        have cp: "cp = RED" using rp unfolding e1 e2 e3 by simp
        have cu: "cu = RED" using un unfolding e1 e2 e3 by simp
        show ?thesis
          using fix_red_uncle_RL[OF ok t[unfolded e1 e2 e3 cp cu] d[unfolded e1 e2 e3 cp cu] rt[unfolded e1 e2 e3, simplified]]
          unfolding e1 e2 e3 cp cu by auto
      qed
    qed
  next
    case (RightOf U g cg xg)
    note e2 = RightOf
    show ?thesis
    proof (cases U)
      case Lf
      note e3 = Lf
      show ?thesis using un unfolding e2 e3 by simp
    next
      case (Nd ul u cu xu ur)
      note e3 = Nd
      show ?thesis
      proof -
        have cp: "cp = RED" using rp unfolding e1 e2 e3 by simp
        have cu: "cu = RED" using un unfolding e1 e2 e3 by simp
        show ?thesis
          using fix_red_uncle_RR[OF ok t[unfolded e1 e2 e3 cp cu] d[unfolded e1 e2 e3 cp cu] rt[unfolded e1 e2 e3, simplified]]
          unfolding e1 e2 e3 cp cu by auto
      qed
    qed
  qed
qed

lemma fix_rotate:
  assumes ok: "cmp_ok cmp"
    and t: "tree_in s (plug (f1 # f2 # rest) (Nd nl n RED xn nr))"
    and d: "distinct (elems (plug (f1 # f2 # rest) (Nd nl n RED xn nr)))"
    and rt: "nd s (zroot rest (Some (faddr f2))) = Inr Rt" "cmp (data Rt) xn \<noteq> 0"
    and rp: "fcol f1 = RED"
    and un: "col (sib f2) = BLACK"
    and lk: "left_ok rest"
  shows "\<exists>s'. fixTreeInsert (Suc k) cmp s (Some n) = Inr s'
           \<and> tree_in s' (plug rest (rot_ins f1 f2 (Nd nl n RED xn nr)))"
proof (cases f1)
  case (LeftOf p cp xp S)
  note e1 = LeftOf
  show ?thesis
  proof (cases f2)
    case (LeftOf g cg xg U)
    note e2 = LeftOf
    show ?thesis
    proof (cases U)
      case Lf
      note e3 = Lf
      show ?thesis
      proof -
        have cu: "True" using un unfolding e1 e2 e3 by (simp, (cases cu, simp_all)?)
        note t' = t[unfolded e1 e2 e3]
        note d' = d[unfolded e1 e2 e3]
        have cp: "cp = RED" using rp unfolding e1 e2 e3 by simp
        note st = fix_rot_LL_lf[OF ok t'[unfolded cp] d'[unfolded cp] rt[unfolded e1 e2 e3, simplified]]
        note ro = rotateRight_outer[OF ok t'[unfolded cp plug.simps plug1.simps] d'[unfolded cp plug.simps plug1.simps] lk]
        show ?thesis using st ro unfolding e1 e2 e3 by (simp add: cp)
      qed
    next
      case (Nd ul u cu xu ur)
      note e3 = Nd
      show ?thesis
      proof -
        have cu: "cu = BLACK" using un unfolding e1 e2 e3 by (simp, (cases cu, simp_all)?)
        note t' = t[unfolded e1 e2 e3, unfolded cu]
        note d' = d[unfolded e1 e2 e3, unfolded cu]
        have cp: "cp = RED" using rp unfolding e1 e2 e3 by simp
        note st = fix_rot_LL_nd[OF ok t'[unfolded cp] d'[unfolded cp] rt[unfolded e1 e2 e3, simplified]]
        note ro = rotateRight_outer[OF ok t'[unfolded cp plug.simps plug1.simps] d'[unfolded cp plug.simps plug1.simps] lk]
        show ?thesis using st ro unfolding e1 e2 e3 by (simp add: cp cu)
      qed
    qed
  next
    case (RightOf U g cg xg)
    note e2 = RightOf
    show ?thesis
    proof (cases U)
      case Lf
      note e3 = Lf
      show ?thesis
      proof -
        have cu: "True" using un unfolding e1 e2 e3 by (simp, (cases cu, simp_all)?)
        note t' = t[unfolded e1 e2 e3]
        note d' = d[unfolded e1 e2 e3]
        have cp: "cp = RED" using rp unfolding e1 e2 e3 by simp
        note st = fix_rot_LR_lf[OF ok t'[unfolded cp] d'[unfolded cp] rt[unfolded e1 e2 e3, simplified]]
        note ro = rotateRight_inner[OF ok t'[unfolded cp plug.simps plug1.simps] d'[unfolded cp plug.simps plug1.simps] lk]
        show ?thesis using st ro unfolding e1 e2 e3 by (simp add: cp)
      qed
    next
      case (Nd ul u cu xu ur)
      note e3 = Nd
      show ?thesis
      proof -
        have cu: "cu = BLACK" using un unfolding e1 e2 e3 by (simp, (cases cu, simp_all)?)
        note t' = t[unfolded e1 e2 e3, unfolded cu]
        note d' = d[unfolded e1 e2 e3, unfolded cu]
        have cp: "cp = RED" using rp unfolding e1 e2 e3 by simp
        note st = fix_rot_LR_nd[OF ok t'[unfolded cp] d'[unfolded cp] rt[unfolded e1 e2 e3, simplified]]
        note ro = rotateRight_inner[OF ok t'[unfolded cp plug.simps plug1.simps] d'[unfolded cp plug.simps plug1.simps] lk]
        show ?thesis using st ro unfolding e1 e2 e3 by (simp add: cp cu)
      qed
    qed
  qed
next
  case (RightOf S p cp xp)
  note e1 = RightOf
  show ?thesis
  proof (cases f2)
    case (LeftOf g cg xg U)
    note e2 = LeftOf
    show ?thesis
    proof (cases U)
      case Lf
      note e3 = Lf
      show ?thesis
      proof (cases S)
        case Lf
        note e4 = Lf
        show ?thesis
        proof -
          have cu: "True" using un unfolding e1 e2 e3 e4 by (simp, (cases cu, simp_all)?)
          note t' = t[unfolded e1 e2 e3 e4]
          note d' = d[unfolded e1 e2 e3 e4]
          have cp: "cp = RED" using rp unfolding e1 e2 e3 e4 by simp
          note st = fix_rot_RL_lf_slf[OF ok t'[unfolded cp] d'[unfolded cp] rt[unfolded e1 e2 e3 e4, simplified]]
          note ro = rotateLeft_inner[OF ok t'[unfolded cp plug.simps plug1.simps] d'[unfolded cp plug.simps plug1.simps] lk]
          show ?thesis using st ro unfolding e1 e2 e3 e4 by (simp add: cp)
        qed
      next
        case (Nd sl sa sc xs sr)
        note e4 = Nd
        show ?thesis
        proof -
          have cu: "True" using un unfolding e1 e2 e3 e4 by (simp, (cases cu, simp_all)?)
          note t' = t[unfolded e1 e2 e3 e4]
          note d' = d[unfolded e1 e2 e3 e4]
          have cp: "cp = RED" using rp unfolding e1 e2 e3 e4 by simp
          note st = fix_rot_RL_lf_snd[OF ok t'[unfolded cp] d'[unfolded cp] rt[unfolded e1 e2 e3 e4, simplified]]
          note ro = rotateLeft_inner[OF ok t'[unfolded cp plug.simps plug1.simps] d'[unfolded cp plug.simps plug1.simps] lk]
          show ?thesis using st ro unfolding e1 e2 e3 e4 by (simp add: cp)
        qed
      qed
    next
      case (Nd ul u cu xu ur)
      note e3 = Nd
      show ?thesis
      proof (cases S)
        case Lf
        note e4 = Lf
        show ?thesis
        proof -
          have cu: "cu = BLACK" using un unfolding e1 e2 e3 e4 by (simp, (cases cu, simp_all)?)
          note t' = t[unfolded e1 e2 e3 e4, unfolded cu]
          note d' = d[unfolded e1 e2 e3 e4, unfolded cu]
          have cp: "cp = RED" using rp unfolding e1 e2 e3 e4 by simp
          note st = fix_rot_RL_nd_slf[OF ok t'[unfolded cp] d'[unfolded cp] rt[unfolded e1 e2 e3 e4, simplified]]
          note ro = rotateLeft_inner[OF ok t'[unfolded cp plug.simps plug1.simps] d'[unfolded cp plug.simps plug1.simps] lk]
          show ?thesis using st ro unfolding e1 e2 e3 e4 by (simp add: cp cu)
        qed
      next
        case (Nd sl sa sc xs sr)
        note e4 = Nd
        show ?thesis
        proof -
          have cu: "cu = BLACK" using un unfolding e1 e2 e3 e4 by (simp, (cases cu, simp_all)?)
          note t' = t[unfolded e1 e2 e3 e4, unfolded cu]
          note d' = d[unfolded e1 e2 e3 e4, unfolded cu]
          have cp: "cp = RED" using rp unfolding e1 e2 e3 e4 by simp
          note st = fix_rot_RL_nd_snd[OF ok t'[unfolded cp] d'[unfolded cp] rt[unfolded e1 e2 e3 e4, simplified]]
          note ro = rotateLeft_inner[OF ok t'[unfolded cp plug.simps plug1.simps] d'[unfolded cp plug.simps plug1.simps] lk]
          show ?thesis using st ro unfolding e1 e2 e3 e4 by (simp add: cp cu)
        qed
      qed
    qed
  next
    case (RightOf U g cg xg)
    note e2 = RightOf
    show ?thesis
    proof (cases U)
      case Lf
      note e3 = Lf
      show ?thesis
      proof (cases S)
        case Lf
        note e4 = Lf
        show ?thesis
        proof -
          have cu: "True" using un unfolding e1 e2 e3 e4 by (simp, (cases cu, simp_all)?)
          note t' = t[unfolded e1 e2 e3 e4]
          note d' = d[unfolded e1 e2 e3 e4]
          have cp: "cp = RED" using rp unfolding e1 e2 e3 e4 by simp
          note st = fix_rot_RR_lf_slf[OF ok t'[unfolded cp] d'[unfolded cp] rt[unfolded e1 e2 e3 e4, simplified]]
          note ro = rotateLeft_outer[OF ok t'[unfolded cp plug.simps plug1.simps] d'[unfolded cp plug.simps plug1.simps] lk]
          show ?thesis using st ro unfolding e1 e2 e3 e4 by (simp add: cp)
        qed
      next
        case (Nd sl sa sc xs sr)
        note e4 = Nd
        show ?thesis
        proof -
          have cu: "True" using un unfolding e1 e2 e3 e4 by (simp, (cases cu, simp_all)?)
          note t' = t[unfolded e1 e2 e3 e4]
          note d' = d[unfolded e1 e2 e3 e4]
          have cp: "cp = RED" using rp unfolding e1 e2 e3 e4 by simp
          note st = fix_rot_RR_lf_snd[OF ok t'[unfolded cp] d'[unfolded cp] rt[unfolded e1 e2 e3 e4, simplified]]
          note ro = rotateLeft_outer[OF ok t'[unfolded cp plug.simps plug1.simps] d'[unfolded cp plug.simps plug1.simps] lk]
          show ?thesis using st ro unfolding e1 e2 e3 e4 by (simp add: cp)
        qed
      qed
    next
      case (Nd ul u cu xu ur)
      note e3 = Nd
      show ?thesis
      proof (cases S)
        case Lf
        note e4 = Lf
        show ?thesis
        proof -
          have cu: "cu = BLACK" using un unfolding e1 e2 e3 e4 by (simp, (cases cu, simp_all)?)
          note t' = t[unfolded e1 e2 e3 e4, unfolded cu]
          note d' = d[unfolded e1 e2 e3 e4, unfolded cu]
          have cp: "cp = RED" using rp unfolding e1 e2 e3 e4 by simp
          note st = fix_rot_RR_nd_slf[OF ok t'[unfolded cp] d'[unfolded cp] rt[unfolded e1 e2 e3 e4, simplified]]
          note ro = rotateLeft_outer[OF ok t'[unfolded cp plug.simps plug1.simps] d'[unfolded cp plug.simps plug1.simps] lk]
          show ?thesis using st ro unfolding e1 e2 e3 e4 by (simp add: cp cu)
        qed
      next
        case (Nd sl sa sc xs sr)
        note e4 = Nd
        show ?thesis
        proof -
          have cu: "cu = BLACK" using un unfolding e1 e2 e3 e4 by (simp, (cases cu, simp_all)?)
          note t' = t[unfolded e1 e2 e3 e4, unfolded cu]
          note d' = d[unfolded e1 e2 e3 e4, unfolded cu]
          have cp: "cp = RED" using rp unfolding e1 e2 e3 e4 by simp
          note st = fix_rot_RR_nd_snd[OF ok t'[unfolded cp] d'[unfolded cp] rt[unfolded e1 e2 e3 e4, simplified]]
          note ro = rotateLeft_outer[OF ok t'[unfolded cp plug.simps plug1.simps] d'[unfolded cp plug.simps plug1.simps] lk]
          show ?thesis using st ro unfolding e1 e2 e3 e4 by (simp add: cp cu)
        qed
      qed
    qed
  qed
qed

section \<open>fixTreeInsert restores the invariants\<close>

lemma col_plug1 [simp]: "col (plug1 f t) = fcol f"
  by (cases f) auto

lemma cnrr_Cons:
  "cnrr (f # fs) c = (no_red_red (sib f) \<and> (fcol f = RED \<longrightarrow> c = BLACK \<and> col (sib f) = BLACK)
                       \<and> cnrr fs (fcol f))"
  by (cases f) auto

lemma cbal_Cons:
  "cbal (f # fs) k = (balanced (sib f) \<and> bheight (sib f) = k
                       \<and> cbal fs (k + (if fcol f = BLACK then 1 else 0)))"
  by (cases f) auto

lemma cbal_left_ok: "cbal fs k \<Longrightarrow> 0 < k \<Longrightarrow> left_ok fs"
proof (cases fs)
  case Nil
  then show ?thesis by (simp add: left_ok_def)
next
  case (Cons f fs')
  assume "cbal fs k" "0 < k"
  then show ?thesis using Cons
    by (cases f) (auto simp: left_ok_def split: tr.splits)
qed

lemma root_cell:
  "crepr h fs q \<Longrightarrow> fs \<noteq> [] \<Longrightarrow>
   \<exists>a Rt. zroot fs q = Some a \<and> h a = Some Rt \<and> data Rt \<in> set (celems fs)"
proof (induction h fs q rule: crepr.induct)
  case (1 h q)
  then show ?case by simp
next
  case (2 h a c x r fs q)
  then show ?case by (cases fs) auto
next
  case (3 h l a c x fs q)
  then show ?case by (cases fs) auto
qed

lemma color_cases: "(c :: Color) \<noteq> RED \<Longrightarrow> c = BLACK"
  by (cases c) auto

lemma rot_ins_inv:
  assumes "fcol f1 = RED" "fcol f2 = BLACK" "col (sib f2) = BLACK" "col (sib f1) = BLACK"
    and "no_red_red (sib f1)" "no_red_red (sib f2)" "no_red_red (Nd nl n RED xn nr)"
    and "balanced (plug1 f2 (plug1 f1 (Nd nl n RED xn nr)))"
  shows "col (rot_ins f1 f2 (Nd nl n RED xn nr)) = BLACK
       \<and> no_red_red (rot_ins f1 f2 (Nd nl n RED xn nr))
       \<and> balanced (rot_ins f1 f2 (Nd nl n RED xn nr))
       \<and> bheight (rot_ins f1 f2 (Nd nl n RED xn nr)) = bheight (plug1 f2 (plug1 f1 (Nd nl n RED xn nr)))
       \<and> elems (rot_ins f1 f2 (Nd nl n RED xn nr)) = elems (plug1 f2 (plug1 f1 (Nd nl n RED xn nr)))"
  using assms by (cases f1; cases f2) auto

lemma recolor_inv:
  assumes "fcol f1 = RED" "fcol f2 = BLACK" "col (sib f2) = RED" "col (sib f1) = BLACK"
    and "no_red_red (sib f1)" "no_red_red (sib f2)" "no_red_red (Nd nl n RED xn nr)"
    and "balanced (plug1 f2 (plug1 f1 (Nd nl n RED xn nr)))"
  shows "\<exists>gl gr x. plug1 (recolor_gp f2) (plug1 (fpaint BLACK f1) (Nd nl n RED xn nr)) = Nd gl (faddr f2) RED x gr
       \<and> no_red_red (Nd gl (faddr f2) RED x gr)
       \<and> balanced (Nd gl (faddr f2) RED x gr)
       \<and> bheight (Nd gl (faddr f2) RED x gr) = bheight (plug1 f2 (plug1 f1 (Nd nl n RED xn nr)))
       \<and> elems (Nd gl (faddr f2) RED x gr) = elems (plug1 f2 (plug1 f1 (Nd nl n RED xn nr)))"
proof -
  obtain ul u xu ur where u: "sib f2 = Nd ul u RED xu ur"
    using assms(3) by (cases "sib f2") auto
  show ?thesis
    using assms u by (cases f1; cases f2) auto
qed

lemma fixTreeInsert_main:
  assumes ok: "cmp_ok cmp"
  shows "tree_in s (plug fs (Nd nl n RED xn nr)) \<Longrightarrow>
     distinct (elems (plug fs (Nd nl n RED xn nr))) \<Longrightarrow>
     balanced (plug fs (Nd nl n RED xn nr)) \<Longrightarrow>
     no_red_red (Nd nl n RED xn nr) \<Longrightarrow> cnrr fs BLACK \<Longrightarrow> ccol fs BLACK = BLACK \<Longrightarrow>
     length fs < 2 * k \<Longrightarrow>
     \<exists>s' t'. fixTreeInsert k cmp s (Some n) = Inr s' \<and> tree_in s' t' \<and> col t' = BLACK
        \<and> no_red_red t' \<and> balanced t'
        \<and> elems t' = elems (plug fs (Nd nl n RED xn nr))"
proof (induction k arbitrary: s fs nl n xn nr)
  case 0
  then show ?case by simp
next
  case (Suc k)
  let ?N = "Nd nl n RED xn nr"
  note t = Suc.prems(1) and d = Suc.prems(2) and bal = Suc.prems(3) and nrr = Suc.prems(4)
    and cn = Suc.prems(5) and cc = Suc.prems(6) and fuel = Suc.prems(7)
  show ?case
  proof (cases fs)
    case Nil
    obtain s' where s': "fixTreeInsert (Suc k) cmp s (Some n) = Inr s'"
      "tree_in s' (plug [] (Nd nl n BLACK xn nr))"
      using fix_root[OF ok t[unfolded Nil]] by blast
    show ?thesis
      using s' bal nrr unfolding Nil
      by (intro exI[of _ s'] exI[of _ "Nd nl n BLACK xn nr"]) simp
  next
    case (Cons f1 fs1)
    have keepall: "fcol f1 = BLACK \<Longrightarrow> fixTreeInsert (Suc k) cmp s (Some n) = Inr s \<Longrightarrow> ?thesis"
    proof -
      assume b: "fcol f1 = BLACK" and e: "fixTreeInsert (Suc k) cmp s (Some n) = Inr s"
      have "cnrr fs RED" using cn b unfolding Cons cnrr_Cons by simp
      then have "no_red_red (plug fs ?N)" using nrr by (simp add: no_red_red_plug)
      moreover have "col (plug fs ?N) = BLACK"
        using cc unfolding Cons by (simp add: col_plug)
      ultimately show ?thesis
        using e t bal by (intro exI[of _ s] exI[of _ "plug fs ?N"]) simp
    qed
    show ?thesis
    proof (cases fs1)
      case Nil
      have b: "fcol f1 = BLACK" using cc unfolding Cons Nil by simp
      have "fixTreeInsert (Suc k) cmp s (Some n) = Inr s"
      proof (cases f1)
        case (LeftOf p cp xp S)
        then show ?thesis
          using fix_black_root_L[OF ok, of s p xp S nl n xn nr k] t d b unfolding Cons Nil by simp
      next
        case (RightOf S p cp xp)
        then show ?thesis
          using fix_black_root_R[OF ok, of s S p xp nl n xn nr k] t d b unfolding Cons Nil by simp
      qed
      then show ?thesis using keepall b by blast
    next
      case c2: (Cons f2 rest)
      note fs = Cons[unfolded c2]
      note t' = t[unfolded fs] and d' = d[unfolded fs]
      have cr: "crepr (store s) (f1 # f2 # rest) (Some n)" "root s = zroot rest (Some (faddr f2))"
        using t'[unfolded tree_in_plug] by simp_all
      obtain a Rt where rt0: "zroot (f1 # f2 # rest) (Some n) = Some a" "store s a = Some Rt"
        "data Rt \<in> set (celems (f1 # f2 # rest))"
        using root_cell[OF cr(1)] by auto
      have rt: "nd s (zroot rest (Some (faddr f2))) = Inr Rt" "cmp (data Rt) xn \<noteq> 0"
        using rt0 d'[unfolded distinct_elems_plug] ok by (auto simp: nd_Some_eq cmp_ok_eq)
      show ?thesis
      proof (cases "fcol f1 = RED")
        case False
        then have b: "fcol f1 = BLACK" by (rule color_cases)
        show ?thesis
          using keepall[OF b fix_black_parent[OF ok t' d' rt b]] .
      next
        case rp: True
        have cg: "fcol f2 = BLACK"
          using cn rp unfolding fs cnrr_Cons by (auto intro: color_cases)
        have s1: "col (sib f1) = BLACK"
          and n1: "no_red_red (sib f1)" and n2: "no_red_red (sib f2)"
          and cnr: "cnrr rest BLACK"
          using cn rp cg unfolding fs cnrr_Cons by auto
        have ccr: "ccol rest BLACK = BLACK" using cc cg unfolding fs by simp
        let ?G = "plug1 f2 (plug1 f1 ?N)"
        have pl: "plug fs ?N = plug rest ?G" unfolding fs by simp
        have bG: "balanced ?G" and cb: "cbal rest (bheight ?G)"
          using bal unfolding pl balanced_plug by auto
        have bh: "0 < bheight ?G" using cg by (cases f2) auto
        show ?thesis
        proof (cases "col (sib f2) = RED")
          case un: True
          obtain s3 where s3: "tree_in s3 (plug rest (plug1 (recolor_gp f2) (plug1 (fpaint BLACK f1) ?N)))"
            "fixTreeInsert (Suc k) cmp s (Some n) = fixTreeInsert k cmp s3 (Some (faddr f2))"
            using fix_red_uncle[OF ok t' d' rt rp un] by blast
          obtain gl gr x where G': "plug1 (recolor_gp f2) (plug1 (fpaint BLACK f1) ?N) = Nd gl (faddr f2) RED x gr"
            "no_red_red (Nd gl (faddr f2) RED x gr)" "balanced (Nd gl (faddr f2) RED x gr)"
            "bheight (Nd gl (faddr f2) RED x gr) = bheight ?G"
            "elems (Nd gl (faddr f2) RED x gr) = elems ?G"
            using recolor_inv[OF rp cg un s1 n1 n2 nrr bG] by blast
          have e: "elems (plug rest (Nd gl (faddr f2) RED x gr)) = elems (plug fs ?N)"
            unfolding pl using G'(5) by (rule elems_plug_cong)
          have "\<exists>s' t'. fixTreeInsert k cmp s3 (Some (faddr f2)) = Inr s' \<and> tree_in s' t' \<and> col t' = BLACK
              \<and> no_red_red t' \<and> balanced t'
              \<and> elems t' = elems (plug rest (Nd gl (faddr f2) RED x gr))"
          proof (rule Suc.IH)
            show "tree_in s3 (plug rest (Nd gl (faddr f2) RED x gr))" using s3(1) G'(1) by simp
            show "distinct (elems (plug rest (Nd gl (faddr f2) RED x gr)))" using e d by simp
            show "balanced (plug rest (Nd gl (faddr f2) RED x gr))"
              using G'(3,4) cb by (simp add: balanced_plug)
            show "no_red_red (Nd gl (faddr f2) RED x gr)" by (rule G'(2))
            show "cnrr rest BLACK" by (rule cnr)
            show "ccol rest BLACK = BLACK" by (rule ccr)
            show "length rest < 2 * k" using fuel unfolding fs by simp
          qed
          then show ?thesis using s3(2) e by simp
        next
          case False
          then have un: "col (sib f2) = BLACK" by (rule color_cases)
          have lk: "left_ok rest" using cbal_left_ok[OF cb bh] .
          obtain s' where s': "fixTreeInsert (Suc k) cmp s (Some n) = Inr s'"
            "tree_in s' (plug rest (rot_ins f1 f2 ?N))"
            using fix_rotate[OF ok t' d' rt rp un lk] by blast
          note ri = rot_ins_inv[OF rp cg un s1 n1 n2 nrr bG]
          have e: "elems (plug rest (rot_ins f1 f2 ?N)) = elems (plug fs ?N)"
            unfolding pl using ri by (intro elems_plug_cong) simp
          have "col (plug rest (rot_ins f1 f2 ?N)) = BLACK"
            using ri ccr by (simp add: col_plug)
          moreover have "no_red_red (plug rest (rot_ins f1 f2 ?N))"
            using ri cnr by (simp add: no_red_red_plug)
          moreover have "balanced (plug rest (rot_ins f1 f2 ?N))"
            using ri cb by (simp add: balanced_plug)
          ultimately show ?thesis
            using s' e by (intro exI[of _ s'] exI[of _ "plug rest (rot_ins f1 f2 ?N)"]) simp
        qed
      qed
    qed
  qed
qed

section \<open>Insertion keeps a valid tree\<close>

lemma strict_sorted_distinct: "sorted_wrt (<) (xs :: 'a::linorder list) \<Longrightarrow> distinct xs"
  by (induction xs) auto

lemma length_elems_ins:
  "length (elems (plug (ipath cmp x t) (Nd Lf n c x Lf))) = Suc (length (elems t))"
  by (induction t) (auto simp: plug_append)

lemma tree_in_alloc: "repr h p t \<Longrightarrow> a \<in> set (addrs t) \<Longrightarrow> h a \<noteq> None"
  by (induction t arbitrary: p) auto

lemma insert_step:
  assumes ok: "cmp_ok cmp"
    and v: "rb_valid cmp s t"
    and nx: "x \<notin> set (elems t)"
    and fuel: "length (elems t) < k"
  shows "\<exists>s' t'. insertToRBTree k cmp (Some s) (Some x) = Inr (1, Some s')
           \<and> rb_valid cmp s' t' \<and> set (elems t') = insert x (set (elems t))
           \<and> freed s' = freed s"
proof -
  have ti: "tree_in s t" and rb: "rb_tree cmp t" and sz: "tsize s = int (length (elems t))"
    and fr: "fresh s"
    using v by (auto simp: rb_valid_def)
  have srt: "sorted_wrt (<) (elems t)"
    using rb ok by (simp add: rb_tree_def ascending_strict)
  have h: "height t < k" using height_le_size[of t] fuel by simp
  have rp: "repr (store s) None t" and rt: "root s = ptr t" and da: "distinct (addrs t)"
    using ti by (auto simp: tree_in_def)
  have c0: "RBTreeContains k cmp (Some s) x = Inr 0"
    using contains_repr[OF ok rp srt h, of x] nx rt by (simp add: RBTreeContains_def)
  let ?n = "nxt s"
  let ?s1 = "s\<lparr>store := (store s)(?n \<mapsto>
            \<lparr>parent = None, left = None, right = None, color = RED, data = x\<rparr>),
        nxt := Suc ?n\<rparr>"
  have nn: "?n \<notin> set (addrs t)"
    using tree_in_alloc[OF rp, of ?n] fr by (auto simp: fresh_def)
  show ?thesis
  proof (cases t)
    case Lf
    let ?s' = "s\<lparr>store := (store s)(?n \<mapsto>
            \<lparr>parent = None, left = None, right = None, color = BLACK, data = x\<rparr>),
        nxt := Suc ?n, root := Some ?n, tsize := tsize s + 1\<rparr>"
    have e: "insertToRBTree k cmp (Some s) (Some x) = Inr (1, Some ?s')"
      using c0 rt Lf by (simp add: insertToRBTree_def newNode_def cell_ops)
    have "rb_valid cmp ?s' (Nd Lf ?n BLACK x Lf)"
      using fr sz Lf by (auto simp: rb_valid_def tree_in_def rb_tree_def ascending_def fresh_def)
    then show ?thesis using e Lf by (intro exI[of _ ?s'] exI[of _ "Nd Lf ?n BLACK x Lf"]) simp
  next
    case (Nd l a c y r)
    let ?N = "Nd Lf ?n RED x Lf"
    let ?fs = "ipath cmp x t"
    have t1: "tree_in ?s1 (plug [] t)"
      using rp rt da nn by (simp add: tree_in_def)
    obtain s2 where s2: "treeRBinsert k cmp ?s1 (ptr t) (Some ?n) = Inr (1, s2)"
      "tree_in s2 (plug (?fs @ []) ?N)"
      using treeRBinsert_plug[OF ok t1, of ?n x k] Nd nn nx h by auto
    have k1: "keep ?s1 s2" using treeRBinsert_keep[OF s2(1)] .
    have ei: "sorted_wrt (<) (elems (plug ?fs ?N))" "set (elems (plug ?fs ?N)) = insert x (set (elems t))"
      using elems_ins[OF ok srt nx] by auto
    have pi: "plug ?fs Lf = t" by (rule plug_ipath)
    have bal: "balanced (plug ?fs ?N)"
      using rb unfolding rb_tree_def by (subst (asm) (3) pi[symmetric]) (simp add: balanced_plug)
    have cn: "cnrr ?fs BLACK"
      using rb unfolding rb_tree_def by (subst (asm) (2) pi[symmetric]) (simp add: no_red_red_plug)
    have cc: "ccol ?fs BLACK = BLACK"
      using rb unfolding rb_tree_def by (subst (asm) (1) pi[symmetric]) (simp add: col_plug)
    have len: "length ?fs < 2 * k" using length_ipath[of cmp x t] h by simp
    obtain s3 t' where s3: "fixTreeInsert k cmp s2 (Some ?n) = Inr s3" "tree_in s3 t'"
      "col t' = BLACK" "no_red_red t'" "balanced t'" "elems t' = elems (plug ?fs ?N)"
      using fixTreeInsert_main[OF ok, of s2 ?fs Lf ?n x Lf k] s2(2) ei(1) bal cn cc len
      by (auto dest: strict_sorted_distinct)
    have k2: "keep s2 s3" using fixTreeInsert_keep[OF s3(1)] .
    let ?s' = "s3\<lparr>tsize := tsize s3 + 1\<rparr>"
    have e: "insertToRBTree k cmp (Some s) (Some x) = Inr (1, Some ?s')"
      using c0 rt Nd s2(1) s3(1) by (simp add: insertToRBTree_def newNode_def)
    have al: "allocd s3 = insert ?n (allocd s)" and nx3: "nxt s3 = Suc ?n"
      and ts: "tsize s3 = tsize s" and fd: "freed s3 = freed s"
      using k1 k2 by (auto simp: keep_def allocd_def)
    have fr': "fresh ?s'"
      unfolding fresh_def
    proof (intro allI impI)
      fix b assume "nxt ?s' \<le> b"
      then have "b \<noteq> ?n" "nxt s \<le> b" using nx3 by auto
      then have "b \<notin> allocd s3" using al fr by (auto simp: fresh_def allocd_def)
      then show "store ?s' b = None" by (auto simp: allocd_def)
    qed
    have "rb_valid cmp ?s' t'"
      using s3 ei fr' ts sz ok length_elems_ins[of cmp x t ?n RED]
      by (simp add: rb_valid_def tree_in_def rb_tree_def ascending_strict)
    then show ?thesis using e s3(6) ei(2) fd
      by (intro exI[of _ ?s'] exI[of _ t']) simp
  qed
qed

lemma insertAll_valid:
  assumes ok: "cmp_ok cmp"
  shows "rb_valid cmp s t \<Longrightarrow> distinct xs \<Longrightarrow> set xs \<inter> set (elems t) = {} \<Longrightarrow>
     length (elems t) + length xs \<le> k \<Longrightarrow>
     \<exists>s' t'. insertAll k cmp xs s = Inr (replicate (length xs) 1, s') \<and> rb_valid cmp s' t'
        \<and> set (elems t') = set (elems t) \<union> set xs \<and> freed s' = freed s"
proof (induction xs arbitrary: s t)
  case Nil
  then show ?case by auto
next
  case (Cons x xs)
  obtain s1 t1 where s1: "insertToRBTree k cmp (Some s) (Some x) = Inr (1, Some s1)"
    "rb_valid cmp s1 t1" "set (elems t1) = insert x (set (elems t))" "freed s1 = freed s"
    using insert_step[OF ok Cons.prems(1), of x k] Cons.prems by auto
  have d1: "distinct (elems t1)" "distinct (elems t)"
    using s1(2) Cons.prems(1) ok
    by (auto simp: rb_valid_def rb_tree_def ascending_strict dest: strict_sorted_distinct)
  have "length (elems t1) = Suc (length (elems t))"
    using d1 s1(3) Cons.prems(3) distinct_card[OF d1(1)] distinct_card[OF d1(2)] by simp
  then obtain s' t' where s': "insertAll k cmp xs s1 = Inr (replicate (length xs) 1, s')"
    "rb_valid cmp s' t'" "set (elems t') = set (elems t1) \<union> set xs" "freed s' = freed s1"
    using Cons.IH[OF s1(2)] Cons.prems s1(3) by auto
  show ?case
    using s1 s' by (intro exI[of _ s'] exI[of _ t']) auto
qed

section \<open>Insertion keeps the red-black invariants\<close>

lemma cmp_ok_ordCompare: "cmp_ok ordCompare"
  by (auto simp: cmp_ok_def ordCompare_def)

lemma rb_valid_new: "rb_valid cmp newRBTree Lf"
  by (simp add: rb_valid_def tree_in_def rb_tree_def ascending_def fresh_def newRBTree_def)

lemma insertAll_append:
  "insertAll k cmp (xs @ ys) s =
     bnd (insertAll k cmp xs s) (\<lambda>(rs, s').
       bnd (insertAll k cmp ys s') (\<lambda>(rs', s''). Inr (rs @ rs', s'')))"
proof (induction xs arbitrary: s)
  case Nil
  show ?case by (cases "insertAll k cmp ys s") auto
next
  case (Cons x xs)
  show ?case
  proof (cases "insertToRBTree k cmp (Some s) (Some x)")
    case (Inl e)
    then show ?thesis by simp
  next
    case (Inr p)
    obtain r t where p: "p = (r, t)" by (cases p)
    show ?thesis
    proof (cases t)
      case None
      then show ?thesis using Inr p by simp
    next
      case (Some s1)
      show ?thesis
      proof (cases "insertAll k cmp xs s1")
        case (Inl e)
        then show ?thesis using Inr p Some Cons.IH [of s1] by simp
      next
        case inr: (Inr q)
        obtain rs s2 where q: "q = (rs, s2)" by (cases q)
        show ?thesis
          using Inr p Some inr q Cons.IH [of s1]
          by (cases "insertAll k cmp ys s2") auto
      qed
    qed
  qed
qed

text \<open>
  Claim C1. Take a comparator that follows the contract and a list of pairwise distinct
  elements, and insert them one after the other into a new tree (with a recursion budget of
  at least their number). Then after each insert, that is for every prefix of the list, every
  call so far returned 1 and the tree object holds a tree whose root is BLACK, in which no
  RED node has a RED child, in which every path from a node down to an absent child passes
  the same number of BLACK nodes, and whose in-order sequence ascends strictly in the order
  of the comparator; its elements are the elements inserted so far and the count is their
  number. (By \<open>insertAll_append\<close> the run of a prefix is the beginning of the run of the
  whole list.)
\<close>

theorem insert_keeps_red_black:
  assumes ok: "cmp_ok cmp" and d: "distinct xs" and k: "length xs \<le> k"
  shows "\<forall>n \<le> length xs. \<exists>s t.
           insertAll k cmp (take n xs) newRBTree = Inr (replicate n 1, s)
         \<and> tree_in s t \<and> col t = BLACK \<and> no_red_red t \<and> balanced t
         \<and> ascending cmp (elems t) \<and> set (elems t) = set (take n xs)
         \<and> tsize s = int n"
proof (intro allI impI)
  fix n assume n: "n \<le> length xs"
  have "distinct (take n xs)" using d by simp
  from insertAll_valid[OF ok rb_valid_new this, of k] k n
  obtain s t where r: "insertAll k cmp (take n xs) newRBTree = Inr (replicate (length (take n xs)) 1, s)"
     "rb_valid cmp s t" "set (elems t) = set (take n xs)"
    by auto
  have dt: "distinct (elems t)" using r(2) ok
    by (auto simp: rb_valid_def rb_tree_def ascending_strict dest: strict_sorted_distinct)
  have "length (elems t) = n"
    using distinct_card[OF dt] distinct_card[OF \<open>distinct (take n xs)\<close>] r(3) n by simp
  then show "\<exists>s t. insertAll k cmp (take n xs) newRBTree = Inr (replicate n 1, s)
         \<and> tree_in s t \<and> col t = BLACK \<and> no_red_red t \<and> balanced t
         \<and> ascending cmp (elems t) \<and> set (elems t) = set (take n xs)
         \<and> tsize s = int n"
    using r n by (intro exI[of _ s] exI[of _ t]) (simp add: rb_valid_def rb_tree_def min_def)
qed

theorem insert_keeps_red_black_witness:
  "\<exists>s t. insertAll 3 ordCompare [2, 1, 3 :: int] newRBTree = Inr ([1, 1, 1], s)
         \<and> tree_in s t \<and> col t = BLACK \<and> no_red_red t \<and> balanced t
         \<and> ascending ordCompare (elems t) \<and> set (elems t) = {1, 2, 3}
         \<and> tsize s = 3"
  using insert_keeps_red_black [OF cmp_ok_ordCompare, of "[2, 1, 3 :: int]" 3, THEN spec, of 3]
  by (simp add: numeral_3_eq_3 insert_commute del: insertAll.simps)

section \<open>Deletion does not keep the invariants\<close>

lemma repr_unique: "repr h p t \<Longrightarrow> repr h p t' \<Longrightarrow> ptr t = ptr t' \<Longrightarrow> t = t'"
proof (induction t arbitrary: p t')
  case Lf
  then show ?case by (cases t') auto
next
  case (Nd l a c x r)
  then show ?case by (cases t') auto
qed

lemma tree_in_unique: "tree_in s t \<Longrightarrow> tree_in s t' \<Longrightarrow> t = t'"
  by (auto simp: tree_in_def intro: repr_unique)

text \<open>
  Claim C2, evaluated. Insert 1, 2, ..., 10 into a new tree and delete 1. Every call returns
  1. The tree object then holds (and by \<open>tree_in_unique\<close> holds only) the tree with the
  root 4, whose left subtree is 2 with the right child 3 and whose right subtree is 6 above
  5 and 8: the paths down from 4 through 2 pass one BLACK node below the root and those
  through 6 pass two. deleteB, called for a removed left child below a BLACK parent, paints
  the sibling RED and stops, where for a removed right child it goes on to delete3 at the
  grandparent. Deleting 2, 3 and 4 next, the fourth delete reads the colour of an absent
  sibling in deleteC.
\<close>

theorem delete_breaks_balance_run:
  "bnd (insertAll 20 ordCompare [1, 2, 3, 4, 5, 6, 7, 8, 9, 10 :: int] newRBTree) (\<lambda>(rs, s).
     bnd (deleteAll 20 ordCompare [1] s) (\<lambda>(ds, s').
       let L = Nd Lf 1 BLACK 2 (Nd Lf 2 RED 3 Lf);
           R = Nd (Nd Lf 4 BLACK 5 Lf) 5 BLACK 6
                 (Nd (Nd Lf 6 BLACK 7 Lf) 7 RED 8 (Nd Lf 8 BLACK 9 (Nd Lf 9 RED 10 Lf)))
       in Inr (rs, ds, tree_in s' (Nd L 3 BLACK 4 R), balanced (Nd L 3 BLACK 4 R),
               bheight L, bheight R)))
     = Inr ([1, 1, 1, 1, 1, 1, 1, 1, 1, 1], [1], True, False, 1, 2)
   \<and> bnd (insertAll 20 ordCompare [1, 2, 3, 4, 5, 6, 7, 8, 9, 10 :: int] newRBTree) (\<lambda>(rs, s).
       bnd (deleteAll 20 ordCompare [1, 2, 3, 4] s) (\<lambda>(ds, s'). Inr ds)) = Inl NullDeref"
  by code_simp

section \<open>Membership after deletions\<close>

text \<open>
  Claim C5, evaluated. Insert 10, 9, ..., 1 into a new tree and delete 7, 8, 9 and 10.
  Every call returns 1 and the count is 6, but RBTreeContains answers 0 for 6, which was
  inserted and never deleted: the tree object holds a tree of the five elements 1, 2, 3, 4,
  5. The delete of 7 leaves the tree unbalanced as in the section before (deleteB paints 10
  RED below the BLACK node 9 and stops), so that after the deletes of 8 and 9 the node of 10
  is BLACK and has the single BLACK child 6. The delete of 10 takes that node out with
  removeM, which puts the node's right child (NULL) in its place: the node of 6 is cut off,
  with its element, and never freed.
\<close>

theorem contains_after_deletes_run:
  "bnd (insertAll 20 ordCompare [10, 9, 8, 7, 6, 5, 4, 3, 2, 1 :: int] newRBTree) (\<lambda>(rs, s).
     bnd (deleteAll 20 ordCompare [7, 8, 9, 10] s) (\<lambda>(ds, s').
     bnd (RBTreeContains 20 ordCompare (Some s') 6) (\<lambda>c.
       Inr (rs, ds, c, tsize s',
         tree_in s' (Nd (Nd (Nd (Nd Lf 9 RED 1 Lf) 8 BLACK 2 Lf) 7 RED 3 (Nd Lf 6 BLACK 4 Lf))
                       5 BLACK 5 Lf)))))
   = Inr ([1, 1, 1, 1, 1, 1, 1, 1, 1, 1], [1, 1, 1, 1], 0, 6, True)"
  by code_simp

section \<open>Calls that fail, and the element count\<close>



lemma contains_tree_in:
  assumes "cmp_ok cmp" "tree_in s t" "ascending cmp (elems t)" "height t < k"
  shows "RBTreeContains k cmp (Some s) x = Inr (if x \<in> set (elems t) then 1 else 0)"
  using contains_repr [OF assms(1), of s None t k x] assms
  by (simp add: RBTreeContains_def tree_in_def ascending_strict)

lemma tree_in_S2: "tree_in S2 T2"
  by (simp add: S2_def T2_def tree_in_def)

text \<open>
  Claim C4. Let the tree object hold a search tree (its in-order sequence ascends strictly),
  let the comparator follow the contract, and let malloc hand out memory that is not in use.
  An insert with a NULL tree, with a NULL element or with an element that is in the tree
  returns 0, and a delete with a NULL tree, with a NULL element or with an element that is
  not in the tree returns 0; the tree object is then the same as before in every field and
  every cell. An insert that returns a result returns 0 in this way or returns 1 with the
  count \<open>tsize\<close> one higher, and a delete returns 0 in this way or returns 1 with the
  count one lower.
\<close>

theorem failed_calls_leave_tree_unmodified:
  assumes ok: "cmp_ok cmp" and t: "tree_in s t" and asc: "ascending cmp (elems t)"
    and fuel: "height t < k" and fr: "store s (nxt s) = None"
  shows "insertToRBTree k cmp None dat = Inr (0, None)
     \<and> insertToRBTree k cmp (Some s) None = Inr (0, Some s)
     \<and> (x \<in> set (elems t) \<longrightarrow> insertToRBTree k cmp (Some s) (Some x) = Inr (0, Some s))
     \<and> deleteFromRBTree k cmp None dat = Inr (0, None)
     \<and> deleteFromRBTree k cmp (Some s) None = Inr (0, Some s)
     \<and> (x \<notin> set (elems t) \<longrightarrow> deleteFromRBTree k cmp (Some s) (Some x) = Inr (0, Some s))
     \<and> (\<forall>r t'. insertToRBTree k cmp (Some s) (Some x) = Inr (r, t') \<longrightarrow>
            (r = 0 \<and> t' = Some s \<and> x \<in> set (elems t)) \<or>
            (r = 1 \<and> x \<notin> set (elems t) \<and> (\<exists>s'. t' = Some s' \<and> tsize s' = tsize s + 1)))
     \<and> (\<forall>r t'. deleteFromRBTree k cmp (Some s) (Some x) = Inr (r, t') \<longrightarrow>
            (r = 0 \<and> t' = Some s \<and> x \<notin> set (elems t)) \<or>
            (r = 1 \<and> x \<in> set (elems t) \<and> (\<exists>s'. t' = Some s' \<and> tsize s' = tsize s - 1)))"
proof -
  note c = contains_tree_in [OF ok t asc fuel, of x]
  have i1: "x \<in> set (elems t) \<Longrightarrow> insertToRBTree k cmp (Some s) (Some x) = Inr (0, Some s)"
    using c by (simp add: insertToRBTree_def)
  have d1: "x \<notin> set (elems t) \<Longrightarrow> deleteFromRBTree k cmp (Some s) (Some x) = Inr (0, Some s)"
    using c by (simp add: deleteFromRBTree_def)
  have i2: "(r = 0 \<and> t' = Some s \<and> x \<in> set (elems t)) \<or>
            (r = 1 \<and> x \<notin> set (elems t) \<and> (\<exists>s'. t' = Some s' \<and> tsize s' = tsize s + 1))"
    if h: "insertToRBTree k cmp (Some s) (Some x) = Inr (r, t')" for r t'
  proof (cases "x \<in> set (elems t)")
    case True
    then show ?thesis using i1 h by simp
  next
    case False
    have "r \<noteq> 0"
    proof
      assume r0: "r = 0"
      then have ts: "t' = Some s" using insertToRBTree_result [OF h fr] by auto
      obtain new s1 where nn: "newNode x s = (new, s1)" by (cases "newNode x s")
      have n1: "nxt s1 = Suc (nxt s)" using nn by (auto simp: newNode_def)
      from h c False r0 ts nn have "treeRBinsert k cmp s1 (root s1) new = Inr (0, s)"
        by (auto simp: insertToRBTree_def elim!: bndE split: if_splits)
      then show False using treeRBinsert_keep [of k cmp s1 "root s1" new 0 s] n1
        by (auto simp: keep_def)
    qed
    then show ?thesis using insertToRBTree_result [OF h fr] False by auto
  qed
  have d2: "(r = 0 \<and> t' = Some s \<and> x \<notin> set (elems t)) \<or>
            (r = 1 \<and> x \<in> set (elems t) \<and> (\<exists>s'. t' = Some s' \<and> tsize s' = tsize s - 1))"
    if h: "deleteFromRBTree k cmp (Some s) (Some x) = Inr (r, t')" for r t'
  proof (cases "x \<in> set (elems t)")
    case False
    then show ?thesis using d1 h by simp
  next
    case True
    have "r \<noteq> 0"
      using h c True
      by (auto simp: deleteFromRBTree_def elim!: bndE dest!: nodeFinder_found split: if_splits)
    then show ?thesis using deleteFromRBTree_result [OF h] True by auto
  qed
  show ?thesis
    using i1 d1 i2 d2 by (simp add: insertToRBTree_def deleteFromRBTree_def)
qed

theorem failed_calls_leave_tree_unmodified_witness:
  "insertToRBTree 3 ordCompare (Some S2) (Some 1) = Inr (0, Some S2)
   \<and> deleteFromRBTree 3 ordCompare (Some S2) (Some 7) = Inr (0, Some S2)
   \<and> (\<exists>s'. insertToRBTree 3 ordCompare (Some S2) (Some 3) = Inr (1, Some s') \<and> tsize s' = 3)
   \<and> (\<exists>s'. deleteFromRBTree 3 ordCompare (Some S2) (Some 2) = Inr (1, Some s') \<and> tsize s' = 1)"
proof -
  have asc: "ascending ordCompare (elems T2)" by (simp add: T2_def ascending_def ordCompare_def)
  have fuel: "height T2 < 3" by (simp add: T2_def)
  have fr: "store S2 (nxt S2) = None" by (simp add: S2_def)
  have el: "elems T2 = [1, 2]" by (simp add: T2_def)
  have sz: "tsize S2 = 2" by (simp add: S2_def)
  note a = failed_calls_leave_tree_unmodified [OF cmp_ok_ordCompare tree_in_S2 asc fuel fr, of _ 1]
  note b = failed_calls_leave_tree_unmodified [OF cmp_ok_ordCompare tree_in_S2 asc fuel fr, of _ 7]
  note c = failed_calls_leave_tree_unmodified [OF cmp_ok_ordCompare tree_in_S2 asc fuel fr, of _ 3]
  note d = failed_calls_leave_tree_unmodified [OF cmp_ok_ordCompare tree_in_S2 asc fuel fr, of _ 2]
  have ri: "case insertToRBTree 3 ordCompare (Some S2) (Some 3) of Inl e \<Rightarrow> False | Inr p \<Rightarrow> True"
    by code_simp
  have rd: "case deleteFromRBTree 3 ordCompare (Some S2) (Some 2) of Inl e \<Rightarrow> False | Inr p \<Rightarrow> True"
    by code_simp
  obtain r1 t1 where r1: "insertToRBTree 3 ordCompare (Some S2) (Some 3) = Inr (r1, t1)"
    using ri by (cases "insertToRBTree 3 ordCompare (Some S2) (Some 3)") auto
  obtain r2 t2 where r2: "deleteFromRBTree 3 ordCompare (Some S2) (Some 2) = Inr (r2, t2)"
    using rd by (cases "deleteFromRBTree 3 ordCompare (Some S2) (Some 2)") auto
  have p1: "insertToRBTree 3 ordCompare (Some S2) (Some 1) = Inr (0, Some S2)"
    using a [THEN conjunct2, THEN conjunct2, THEN conjunct1] by (simp add: el)
  have p2: "deleteFromRBTree 3 ordCompare (Some S2) (Some 7) = Inr (0, Some S2)"
    using b [THEN conjunct2, THEN conjunct2, THEN conjunct2, THEN conjunct2, THEN conjunct2,
             THEN conjunct1] by (simp add: el)
  have p3: "\<exists>s'. t1 = Some s' \<and> r1 = 1 \<and> tsize s' = 3"
    using c [THEN conjunct2, THEN conjunct2, THEN conjunct2, THEN conjunct2, THEN conjunct2,
             THEN conjunct2, THEN conjunct1, rule_format, OF r1] by (auto simp: el sz)
  have p4: "\<exists>s'. t2 = Some s' \<and> r2 = 1 \<and> tsize s' = 1"
    using d [THEN conjunct2, THEN conjunct2, THEN conjunct2, THEN conjunct2, THEN conjunct2,
             THEN conjunct2, THEN conjunct2, rule_format, OF r2] by (auto simp: el sz)
  show ?thesis
    using p1 p2 p3 p4 r1 r2 by auto
qed

section \<open>The rotations\<close>







section \<open>The destructor\<close>





end
